theory Spec2Isabelle
  imports Main "HOL-Library.Word"
begin

unbundle bit_operations_syntax

section \<open>Data model of \<^verbatim>\<open>pak.hpp\<close>\<close>

text \<open>
  A \<^verbatim>\<open>char\<close> is a byte; a \<^verbatim>\<open>std::string\<close>, a \<^verbatim>\<open>char\<close> array and the
  contents of a file are byte lists. The two packed structs are records; since record
  fields share one name space, \<^verbatim>\<open>offset\<close> and \<^verbatim>\<open>size\<close> carry the prefix of
  their struct (\<open>hdr_\<close> for \<^verbatim>\<open>pak_header_t\<close>, \<open>ent_\<close> for \<^verbatim>\<open>pak_file_t\<close>,
  \<open>det_\<close> for \<^verbatim>\<open>pak_file_details_t\<close>, \<open>f_\<close> for the builder's \<^verbatim>\<open>file_t\<close>).
\<close>

type_synonym byte = "8 word"
type_synonym uint32_t = "32 word"

definition MAX_PAK_NAME_LEN :: nat where
  "MAX_PAK_NAME_LEN = 56"

definition sizeof_pak_header_t :: nat where
  "sizeof_pak_header_t = 12"

definition sizeof_pak_file_t :: nat where
  "sizeof_pak_file_t = 64"

definition UINT32_MAX :: nat where
  "UINT32_MAX = 4294967295"

record pak_header_t =
  hdr_id :: "byte list"
  hdr_offset :: uint32_t
  hdr_size :: uint32_t

record pak_file_t =
  ent_name :: "byte list"
  ent_offset :: uint32_t
  ent_size :: uint32_t

record pak_file_details_t =
  det_offset :: uint32_t
  det_size :: uint32_t

datatype PakError = NoError | OpenFailed | InvalidHeader | InvalidFileEntry

text \<open>
  How a call ends: it returns a value, it leaves by a C++ exception, or it runs into
  behaviour the language leaves undefined (a write past the end of a buffer, a second
  \<^verbatim>\<open>fclose\<close> of one stream, a read through a null or closed stream).
\<close>

datatype exception = Out_of_range | Filesystem_error

datatype 'a outcome = Returns 'a | Throws exception | Undefined

subsection \<open>Bytes in memory\<close>

text \<open>
  The structs are copied to and from the file as they lie in memory
  (\<^verbatim>\<open>#pragma pack(1)\<close>); a \<^verbatim>\<open>uint32_t\<close> is four bytes, least significant first.
\<close>

definition le32 :: "uint32_t \<Rightarrow> byte list" where
  "le32 w = [ucast w, ucast (drop_bit 8 w), ucast (drop_bit 16 w), ucast (drop_bit 24 w)]"

definition from_le32 :: "byte list \<Rightarrow> uint32_t" where
  "from_le32 bs = ucast (bs ! 0) OR push_bit 8 (ucast (bs ! 1))
     OR push_bit 16 (ucast (bs ! 2)) OR push_bit 24 (ucast (bs ! 3))"

text \<open>The C string held in a byte sequence: the bytes before the first NUL.\<close>

definition c_str :: "byte list \<Rightarrow> byte list" where
  "c_str bs = takeWhile (\<lambda>c. c \<noteq> 0) bs"

text \<open>\<^verbatim>\<open>strncpy(dst, src, n)\<close>: the \<open>n\<close> bytes written to \<^verbatim>\<open>dst\<close>.\<close>

definition strncpy :: "byte list \<Rightarrow> nat \<Rightarrow> byte list" where
  "strncpy src n = take n (c_str src @ replicate n 0)"

text \<open>
  The name of an entry as the reader decodes it: the field is copied into a zeroed
  array of \<^verbatim>\<open>MAX_PAK_NAME_LEN+1\<close> bytes, which is then read as a C string.
\<close>

definition decode_name :: "byte list \<Rightarrow> byte list" where
  "decode_name nm = c_str (take MAX_PAK_NAME_LEN nm @ [0])"

definition PACK :: "byte list" where
  "PACK = [0x50, 0x41, 0x43, 0x4B]"

definition decode_header :: "byte list \<Rightarrow> pak_header_t" where
  "decode_header b = \<lparr>hdr_id = take 4 b,
     hdr_offset = from_le32 (take 4 (drop 4 b)),
     hdr_size = from_le32 (take 4 (drop 8 b))\<rparr>"

definition encode_header :: "pak_header_t \<Rightarrow> byte list" where
  "encode_header h = hdr_id h @ le32 (hdr_offset h) @ le32 (hdr_size h)"

definition decode_entry :: "byte list \<Rightarrow> pak_file_t" where
  "decode_entry b = \<lparr>ent_name = take MAX_PAK_NAME_LEN b,
     ent_offset = from_le32 (take 4 (drop 56 b)),
     ent_size = from_le32 (take 4 (drop 60 b))\<rparr>"

definition encode_entry :: "pak_file_t \<Rightarrow> byte list" where
  "encode_entry e = ent_name e @ le32 (ent_offset e) @ le32 (ent_size e)"

text \<open>A vector of \<open>cnt\<close> entries read back from the \<open>64 * cnt\<close> bytes it occupies.\<close>

definition decode_table :: "nat \<Rightarrow> byte list \<Rightarrow> pak_file_t list" where
  "decode_table cnt bs =
     map (\<lambda>i. decode_entry (take sizeof_pak_file_t (drop (sizeof_pak_file_t * i) bs))) [0..<cnt]"

subsection \<open>Streams\<close>

text \<open>
  A \<^verbatim>\<open>FILE\<close> opened for reading is the file's bytes and a cursor; the file is
  not written to while a reader has it open, nor is a source while the builder copies
  it. The pointer
  \<^verbatim>\<open>m_file\<close> is null, points to an open stream, or still points to a stream that
  \<^verbatim>\<open>fclose\<close> has released (\<open>Stale\<close>).
\<close>

record stream =
  data :: "byte list"
  pos :: nat

datatype FILE_ptr = Null | Opened stream | Stale

definition fseek_set :: "stream \<Rightarrow> nat \<Rightarrow> stream" where
  "fseek_set s off = s\<lparr>pos := off\<rparr>"

text \<open>The bytes one \<^verbatim>\<open>fread\<close> of \<open>n\<close> bytes obtains, and the stream after it.\<close>

definition fread_bytes :: "stream \<Rightarrow> nat \<Rightarrow> byte list" where
  "fread_bytes s n = take n (drop (pos s) (data s))"

definition fread_advance :: "stream \<Rightarrow> nat \<Rightarrow> stream" where
  "fread_advance s n = s\<lparr>pos := pos s + length (fread_bytes s n)\<rparr>"

section \<open>The reader, \<^verbatim>\<open>pak_archive\<close>\<close>

record pak_archive =
  m_file :: FILE_ptr
  m_fileSize :: nat
  m_files :: "pak_file_t list"
  m_errno :: PakError
  m_lookupMap :: "byte list \<rightharpoonup> nat"

definition pak_archive_init :: pak_archive where
  "pak_archive_init = \<lparr>m_file = Null, m_fileSize = 0, m_files = [], m_errno = NoError,
     m_lookupMap = Map.empty\<rparr>"

definition good :: "pak_archive \<Rightarrow> bool" where
  "good a \<longleftrightarrow> m_file a \<noteq> Null \<and> m_errno a = NoError"

definition last_error :: "pak_archive \<Rightarrow> PakError" where
  "last_error a = m_errno a"

definition file_count :: "pak_archive \<Rightarrow> int" where
  "file_count a = int (length (m_files a))"

text \<open>
  \<^verbatim>\<open>close\<close> calls \<^verbatim>\<open>fclose\<close> whenever \<^verbatim>\<open>m_file\<close> is not null, then resets the
  pointer and clears both containers.
\<close>

definition close :: "pak_archive \<Rightarrow> unit outcome \<times> pak_archive" where
  "close a =
     (case m_file a of
        Stale \<Rightarrow> (Undefined, a)
      | _ \<Rightarrow> (Returns (), a\<lparr>m_file := Null, m_files := [], m_lookupMap := Map.empty\<rparr>))"

text \<open>\<^verbatim>\<open>std::unordered_map::insert\<close> leaves the map as it is when the key is present.\<close>

definition umap_insert :: "'k \<Rightarrow> 'v \<Rightarrow> ('k \<rightharpoonup> 'v) \<Rightarrow> ('k \<rightharpoonup> 'v)" where
  "umap_insert k v m = (case m k of None \<Rightarrow> m(k \<mapsto> v) | Some _ \<Rightarrow> m)"

text \<open>The loop that fills the lookup map, from index \<open>i\<close> on.\<close>

fun populate :: "pak_file_t list \<Rightarrow> nat \<Rightarrow> (byte list \<rightharpoonup> nat) \<Rightarrow> (byte list \<rightharpoonup> nat)" where
  "populate [] i m = m"
| "populate (f # fs) i m = populate fs (Suc i) (umap_insert (decode_name (ent_name f)) i m)"

definition zero_entry :: pak_file_t where
  "zero_entry = \<lparr>ent_name = replicate MAX_PAK_NAME_LEN 0, ent_offset = 0, ent_size = 0\<rparr>"

text \<open>
  \<^verbatim>\<open>open\<close>, here \<open>open_archive\<close>. The argument \<open>src\<close> is what \<^verbatim>\<open>fopen(path, "rb")\<close> finds: \<open>None\<close> when
  the file cannot be opened, its bytes otherwise. The error paths call \<^verbatim>\<open>fclose\<close>
  and leave \<^verbatim>\<open>m_file\<close> pointing to the released stream. The table is read by one
  \<^verbatim>\<open>fread\<close> of \<^verbatim>\<open>hdr.size\<close> bytes into \<^verbatim>\<open>&m_files.at(0)\<close>, a vector of
  \<^verbatim>\<open>hdr.size / 64\<close> zeroed entries: \<^verbatim>\<open>at(0)\<close> throws on the empty vector, and
  bytes beyond the vector's storage are a buffer overrun.
\<close>

definition open_archive :: "byte list option \<Rightarrow> pak_archive \<Rightarrow> bool outcome \<times> pak_archive" where
  "open_archive src a0 =
     (case close a0 of
        (Undefined, a) \<Rightarrow> (Undefined, a)
      | (Throws e, a) \<Rightarrow> (Throws e, a)
      | (Returns _, a1) \<Rightarrow>
          let a2 = a1\<lparr>m_errno := NoError\<rparr> in
          (case src of
             None \<Rightarrow> (Returns False, a2\<lparr>m_file := Null, m_errno := OpenFailed\<rparr>)
           | Some bytes \<Rightarrow>
               let s0 = \<lparr>data = bytes, pos = 0\<rparr>;
                   a3 = a2\<lparr>m_file := Opened s0, m_fileSize := length bytes\<rparr>
               in if m_fileSize a3 < sizeof_pak_header_t
                  then (Returns False, a3\<lparr>m_errno := InvalidHeader, m_file := Stale\<rparr>)
                  else
                    let hb = fread_bytes s0 sizeof_pak_header_t;
                        hdr = decode_header hb
                    in if length hb \<noteq> sizeof_pak_header_t \<or> hdr_id hdr \<noteq> PACK
                       then (Returns False, a3\<lparr>m_errno := InvalidHeader, m_file := Stale\<rparr>)
                       else
                         let s1 = fseek_set s0 (unat (hdr_offset hdr));
                             cnt = unat (hdr_size hdr) div sizeof_pak_file_t;
                             a4 = a3\<lparr>m_file := Opened s1, m_files := replicate cnt zero_entry\<rparr>
                         in if cnt = 0 then (Throws Out_of_range, a4)
                            else
                              let got = fread_bytes s1 (unat (hdr_size hdr));
                                  cap = sizeof_pak_file_t * cnt
                              in if cap < length got then (Undefined, a4)
                                 else
                                   let a5 = a4\<lparr>m_file := Opened (fread_advance s1 (unat (hdr_size hdr))),
                                              m_files := decode_table cnt (got @ replicate (cap - length got) 0)\<rparr>
                                   in if length got \<noteq> unat (hdr_size hdr)
                                      then (Returns False, a5\<lparr>m_errno := InvalidFileEntry, m_file := Stale\<rparr>)
                                      else (Returns True,
                                            a5\<lparr>m_lookupMap := populate (m_files a5) 0 (m_lookupMap a5)\<rparr>)))"

text \<open>
  \<^verbatim>\<open>read_file\<close>. The result carries the bytes that \<^verbatim>\<open>fread\<close> stored at the
  start of \<^verbatim>\<open>outbuf\<close>. The source computes \<^verbatim>\<open>toread\<close> and passes \<^verbatim>\<open>size\<close>
  to \<^verbatim>\<open>fread\<close>, whose item count is 0 when \<^verbatim>\<open>size\<close> is 0.
\<close>

definition read_file :: "byte list \<Rightarrow> nat \<Rightarrow> pak_archive \<Rightarrow> bool outcome \<times> byte list \<times> pak_archive" where
  "read_file pak_path_arg size_arg a =
     (case m_lookupMap a pak_path_arg of
        None \<Rightarrow> (Returns False, [], a)
      | Some i \<Rightarrow>
          if length (m_files a) \<le> i then (Undefined, [], a)
          else
            (case m_file a of
               Opened s \<Rightarrow>
                 let fz = unat (ent_size (m_files a ! i));
                     toread = (if fz < size_arg then fz else size_arg);
                     s1 = fseek_set s (unat (ent_offset (m_files a ! i)));
                     got = fread_bytes s1 size_arg
                 in (Returns (size_arg \<noteq> 0 \<and> length got = size_arg), got,
                     a\<lparr>m_file := Opened (fread_advance s1 size_arg)\<rparr>)
             | _ \<Rightarrow> (Undefined, [], a)))"

text \<open>
  The chunk buffer \<^verbatim>\<open>char buf[8192]\<close> is an array with indeterminate initial
  contents: a function from index to byte. A read stores the bytes it obtained at the
  front and leaves the rest of the array as it was.
\<close>

definition sizeof_buf :: nat where
  "sizeof_buf = 8192"

definition store :: "byte list \<Rightarrow> (nat \<Rightarrow> byte) \<Rightarrow> (nat \<Rightarrow> byte)" where
  "store got buf = (\<lambda>i. if i < length got then got ! i else buf i)"

definition chunk :: "int \<Rightarrow> nat" where
  "chunk sz = (if int sizeof_buf > sz then nat sz else sizeof_buf)"

text \<open>The copy loop of \<^verbatim>\<open>extract_file\<close>; \<open>out\<close> is what has been written to the sink.\<close>

function extract_loop :: "int \<Rightarrow> (nat \<Rightarrow> byte) \<Rightarrow> stream \<Rightarrow> byte list \<Rightarrow> stream \<times> byte list" where
  "extract_loop sz buf s out =
     (if sz > 0 then
        let got = fread_bytes s (chunk sz);
            buf' = store got buf
        in extract_loop (sz - int sizeof_buf) buf' (fread_advance s (chunk sz))
             (out @ map buf' [0..<chunk sz])
      else (s, out))"
  by pat_completeness auto
termination
  by (relation "measure (\<lambda>(sz, buf, s, out). nat sz)") (auto simp: sizeof_buf_def)

declare extract_loop.simps [simp del]

text \<open>
  \<^verbatim>\<open>extract_file\<close>. \<open>sink_ok\<close> says whether \<^verbatim>\<open>fopen(out, "wb")\<close> succeeds; the
  second component of the result is the output file, \<open>None\<close> when it was not created.
\<close>

definition extract_file ::
  "byte list \<Rightarrow> bool \<Rightarrow> (nat \<Rightarrow> byte) \<Rightarrow> pak_archive \<Rightarrow> bool outcome \<times> byte list option \<times> pak_archive" where
  "extract_file pak_path_arg sink_ok buf0 a =
     (case m_lookupMap a pak_path_arg of
        None \<Rightarrow> (Returns False, None, a)
      | Some i \<Rightarrow>
          if \<not> sink_ok then (Returns False, None, a)
          else if length (m_files a) \<le> i then (Undefined, Some [], a)
          else
            (case m_file a of
               Opened s \<Rightarrow>
                 let f = m_files a ! i;
                     s1 = fseek_set s (unat (ent_offset f));
                     sz = uint (ent_size f);
                     (s2, out) = extract_loop sz buf0 s1 []
                 in (Returns True, Some out, a\<lparr>m_file := Opened s2\<rparr>)
             | _ \<Rightarrow> (Undefined, Some [], a)))"

text \<open>
  \<^verbatim>\<open>stat\<close> assigns no member of the reader; on success it stores
  \<^verbatim>\<open>file_size\<close> and \<^verbatim>\<open>offset\<close>.
\<close>

definition stat :: "byte list \<Rightarrow> pak_archive \<Rightarrow> bool outcome \<times> (nat \<times> nat) option" where
  "stat pak_path_arg a =
     (case m_lookupMap a pak_path_arg of
        None \<Rightarrow> (Returns False, None)
      | Some i \<Rightarrow>
          if length (m_files a) \<le> i then (Undefined, None)
          else (Returns True,
                Some (unat (ent_size (m_files a ! i)), unat (ent_offset (m_files a ! i)))))"

text \<open>
  The iterator is an index into \<^verbatim>\<open>m_files\<close>; a range-for loop dereferences every
  index from \<^verbatim>\<open>begin()\<close> up to \<^verbatim>\<open>end()\<close>.
\<close>

definition iter_begin :: "pak_archive \<Rightarrow> nat" where
  "iter_begin a = 0"

definition iter_end :: "pak_archive \<Rightarrow> nat" where
  "iter_end a = length (m_files a)"

definition iter_deref :: "pak_archive \<Rightarrow> nat \<Rightarrow> byte list \<times> pak_file_details_t" where
  "iter_deref a i =
     (let f = m_files a ! i
      in (decode_name (ent_name f), \<lparr>det_offset = ent_offset f, det_size = ent_size f\<rparr>))"

definition enumerate_archive :: "pak_archive \<Rightarrow> (byte list \<times> pak_file_details_t) list" where
  "enumerate_archive a = map (iter_deref a) [iter_begin a..<iter_end a]"

section \<open>The builder, \<^verbatim>\<open>pak_builder\<close>\<close>

text \<open>
  The builder's only member is the vector \<^verbatim>\<open>m_files\<close> of pending files, here
  \<open>b_files\<close> (the reader owns the name \<open>m_files\<close>). A \<^verbatim>\<open>size_t\<close> has 64 bits.
  \<open>disk\<close> is the file system the sources are read from: the bytes of the file at a
  path, \<open>None\<close> when there is none.
\<close>

record file_t =
  disk_path :: string
  pak_path :: "byte list"
  f_offset :: nat
  f_size :: nat

record pak_builder =
  b_files :: "file_t list"

definition pak_builder_init :: pak_builder where
  "pak_builder_init = \<lparr>b_files = []\<rparr>"

definition size_t :: "nat \<Rightarrow> nat" where
  "size_t n = n mod 2 ^ 64"

definition int64_t :: "nat \<Rightarrow> int" where
  "int64_t n = (if size_t n < 2 ^ 63 then int (size_t n) else int (size_t n) - 2 ^ 64)"

text \<open>
  \<^verbatim>\<open>add_file\<close>. \<^verbatim>\<open>std::filesystem::file_size\<close> throws when the path has no file.
  The new element is value-initialised, so its offset is 0 and \<^verbatim>\<open>pak_path\<close> is
  57 zero bytes before \<^verbatim>\<open>strncpy\<close> writes the first 56.
\<close>

definition add_file ::
  "(string \<Rightarrow> byte list option) \<Rightarrow> string \<Rightarrow> byte list \<Rightarrow> pak_builder \<Rightarrow> bool outcome \<times> pak_builder" where
  "add_file disk disk_path_arg pak_path_arg b =
     (if length pak_path_arg > MAX_PAK_NAME_LEN then (Returns False, b)
      else
        (case disk disk_path_arg of
           None \<Rightarrow> (Throws Filesystem_error, b)
         | Some content \<Rightarrow>
             let sz = length content
             in if sz > UINT32_MAX then (Returns False, b)
                else (Returns True,
                      b\<lparr>b_files := b_files b @
                         [\<lparr>disk_path = disk_path_arg,
                           pak_path = strncpy pak_path_arg MAX_PAK_NAME_LEN @ [0],
                           f_offset = 0, f_size = sz\<rparr>]\<rparr>)))"

text \<open>The record that a successful \<open>add_file\<close> appends for a source path and a name.\<close>

definition pending :: "(string \<Rightarrow> byte list option) \<Rightarrow> string \<times> byte list \<Rightarrow> file_t" where
  "pending disk x = \<lparr>disk_path = fst x, pak_path = strncpy (snd x) MAX_PAK_NAME_LEN @ [0],
     f_offset = 0, f_size = length (the (disk (fst x)))\<rparr>"

text \<open>
  The output stream: writing at the cursor replaces what is there and extends the
  file; a cursor beyond the end leaves a gap of zero bytes.
\<close>

definition ostream_write :: "stream \<Rightarrow> byte list \<Rightarrow> stream" where
  "ostream_write s bs =
     \<lparr>data = take (pos s) (data s @ replicate (pos s - length (data s)) 0) @ bs
               @ drop (pos s + length bs) (data s),
      pos = pos s + length bs\<rparr>"

definition seekp :: "stream \<Rightarrow> nat \<Rightarrow> stream" where
  "seekp s off = s\<lparr>pos := off\<rparr>"

text \<open>Pass 1 of \<^verbatim>\<open>write\<close>: the entry table, and the offset stored in each pending file.\<close>

fun write_table :: "file_t list \<Rightarrow> nat \<Rightarrow> stream \<Rightarrow> file_t list \<times> stream" where
  "write_table [] curoff os = ([], os)"
| "write_table (f # fs) curoff os =
     (let ent = \<lparr>ent_name = strncpy (pak_path f) MAX_PAK_NAME_LEN,
                 ent_offset = word_of_nat curoff,
                 ent_size = word_of_nat (f_size f)\<rparr>;
          f' = f\<lparr>f_offset := curoff\<rparr>;
          os' = ostream_write os (encode_entry ent);
          (fs', os'') = write_table fs (size_t (curoff + f_size f)) os'
      in (f' # fs', os''))"

text \<open>
  The copy loop of pass 2. \<open>ist\<close> is what the input stream has left; a read that
  finds fewer than 8192 bytes stores those and leaves nothing for later reads.
\<close>

function copy_loop :: "int \<Rightarrow> (nat \<Rightarrow> byte) \<Rightarrow> byte list \<Rightarrow> stream \<Rightarrow> stream" where
  "copy_loop sz buf ist os =
     (if sz > 0 then
        let got = take sizeof_buf ist;
            buf' = store got buf
        in copy_loop (sz - int sizeof_buf) buf' (drop sizeof_buf ist)
             (ostream_write os (map buf' [0..<chunk sz]))
      else os)"
  by pat_completeness auto
termination
  by (relation "measure (\<lambda>(sz, buf, ist, os). nat sz)") (auto simp: sizeof_buf_def)

declare copy_loop.simps [simp del]

fun write_data :: "(string \<Rightarrow> byte list option) \<Rightarrow> (nat \<Rightarrow> byte) \<Rightarrow> file_t list \<Rightarrow> stream \<Rightarrow> bool \<times> stream" where
  "write_data disk buf0 [] os = (True, os)"
| "write_data disk buf0 (f # fs) os =
     (case disk (disk_path f) of
        None \<Rightarrow> (False, os)
      | Some content \<Rightarrow>
          write_data disk buf0 fs
            (copy_loop (int64_t (f_size f)) buf0 content (seekp os (f_offset f))))"

text \<open>
  \<^verbatim>\<open>write\<close>, here \<open>write_archive\<close>. \<open>sink_ok\<close> says whether the output stream opens; the second component
  of the result is the output file as the call leaves it, \<open>None\<close> when it was not
  created. \<^verbatim>\<open>hdr.size\<close> is a \<^verbatim>\<open>uint32_t\<close>, as is the offset of an entry.
\<close>

definition write_archive ::
  "(string \<Rightarrow> byte list option) \<Rightarrow> bool \<Rightarrow> (nat \<Rightarrow> byte) \<Rightarrow> pak_builder \<Rightarrow> bool \<times> byte list option \<times> pak_builder" where
  "write_archive disk sink_ok buf0 b =
     (if \<not> sink_ok then (False, None, b)
      else
        let hdr = \<lparr>hdr_id = strncpy PACK 4,
                   hdr_offset = word_of_nat sizeof_pak_header_t,
                   hdr_size = word_of_nat (size_t (length (b_files b) * sizeof_pak_file_t))\<rparr>;
            os0 = ostream_write \<lparr>data = [], pos = 0\<rparr> (encode_header hdr);
            curoff = size_t (sizeof_pak_header_t + unat (hdr_size hdr));
            (fs', os1) = write_table (b_files b) curoff os0;
            (ok, os2) = write_data disk buf0 fs' os1
        in (ok, Some (data os2), b\<lparr>b_files := fs'\<rparr>))"

text \<open>
  The entry that pass 1 writes for a pending file, read off the file once its offset
  is stored: the body of the loop assigns the same \<^verbatim>\<open>curoff\<close> to both.
\<close>

definition entry_of :: "file_t \<Rightarrow> pak_file_t" where
  "entry_of f = \<lparr>ent_name = strncpy (pak_path f) MAX_PAK_NAME_LEN,
     ent_offset = word_of_nat (f_offset f),
     ent_size = word_of_nat (f_size f)\<rparr>"

text \<open>The pending files as pass 1 leaves them, whatever it writes meanwhile.\<close>

definition assigned :: "file_t list \<Rightarrow> nat \<Rightarrow> file_t list" where
  "assigned fs curoff = fst (write_table fs curoff \<lparr>data = [], pos = 0\<rparr>)"

section \<open>The callers in \<^verbatim>\<open>main.cpp\<close>\<close>

text \<open>
  Creating an archive registers one file after the other; an exception ends the run.
  Extracting calls \<^verbatim>\<open>extract_file\<close> for one name after the other on the same
  reader, each with an output file that opens.
\<close>

fun add_all ::
  "(string \<Rightarrow> byte list option) \<Rightarrow> (string \<times> byte list) list \<Rightarrow> pak_builder \<Rightarrow> unit outcome \<times> pak_builder" where
  "add_all disk [] b = (Returns (), b)"
| "add_all disk ((p, nm) # xs) b =
     (case add_file disk p nm b of
        (Returns _, b') \<Rightarrow> add_all disk xs b'
      | (Throws e, b') \<Rightarrow> (Throws e, b')
      | (Undefined, b') \<Rightarrow> (Undefined, b'))"

fun extract_all ::
  "(nat \<Rightarrow> byte) \<Rightarrow> byte list list \<Rightarrow> pak_archive \<Rightarrow> (bool outcome \<times> byte list option) list \<times> pak_archive" where
  "extract_all buf0 [] a = ([], a)"
| "extract_all buf0 (nm # nms) a =
     (let (r, out, a') = extract_file nm True buf0 a;
          (rs, a'') = extract_all buf0 nms a'
      in ((r, out) # rs, a''))"

section \<open>The layout as the specification words it\<close>

text \<open>
  The specification puts the table at offset 12 with \<open>64 * n\<close> bytes and the data of
  file \<open>i\<close> at \<open>12 + 64 * n\<close> plus the sizes of the files registered before it.
\<close>

definition spec_offset :: "nat list \<Rightarrow> nat \<Rightarrow> nat" where
  "spec_offset sizes i = 12 + 64 * length sizes + sum_list (take i sizes)"

section \<open>Sample inputs\<close>

definition name_a :: "byte list" where
  "name_a = [0x61]"

definition name_b :: "byte list" where
  "name_b = [0x62]"

definition sample_disk :: "string \<Rightarrow> byte list option" where
  "sample_disk p = (if p = ''x'' then Some [1, 2, 3] else if p = ''y'' then Some [9] else None)"

definition huge_disk :: "string \<Rightarrow> byte list option" where
  "huge_disk p = Some (replicate 4294967296 0)"

definition zero_buf :: "nat \<Rightarrow> byte" where
  "zero_buf i = 0"

text \<open>The archive of no files, as \<open>write_archive\<close> produces it.\<close>

definition empty_pak :: "byte list" where
  "empty_pak = PACK @ le32 12 @ le32 0"

text \<open>A header that announces one entry, in a file that ends after the header.\<close>

definition truncated_pak :: "byte list" where
  "truncated_pak = PACK @ le32 12 @ le32 64"

text \<open>Tables of 10 and of 65 bytes, both present in full.\<close>

definition ragged_pak :: "byte list" where
  "ragged_pak = PACK @ le32 12 @ le32 10 @ replicate 10 0"

definition overrun_pak :: "byte list" where
  "overrun_pak = PACK @ le32 12 @ le32 65 @ replicate 65 0"

text \<open>Two files, \<open>a\<close> with the bytes 1 2 3 and \<open>b\<close> with the byte 9.\<close>

definition two_file_pak :: "byte list" where
  "two_file_pak = PACK @ le32 12 @ le32 128
     @ strncpy name_a 56 @ le32 140 @ le32 3
     @ strncpy name_b 56 @ le32 143 @ le32 1
     @ [1, 2, 3] @ [9]"

text \<open>The same bytes with both entries named \<open>a\<close>.\<close>

definition dup_pak :: "byte list" where
  "dup_pak = PACK @ le32 12 @ le32 128
     @ strncpy name_a 56 @ le32 140 @ le32 3
     @ strncpy name_a 56 @ le32 143 @ le32 1
     @ [1, 2, 3] @ [9]"

text \<open>The reader after opening it.\<close>

definition dup_state :: pak_archive where
  "dup_state = \<lparr>m_file = Opened \<lparr>data = dup_pak, pos = 140\<rparr>, m_fileSize = 144,
        m_files = [\<lparr>ent_name = strncpy name_a 56, ent_offset = 140, ent_size = 3\<rparr>,
                   \<lparr>ent_name = strncpy name_a 56, ent_offset = 143, ent_size = 1\<rparr>],
        m_errno = NoError, m_lookupMap = [name_a \<mapsto> 0]\<rparr>"

definition empty_disk :: "string \<Rightarrow> byte list option" where
  "empty_disk p = Some []"

definition empty_file :: file_t where
  "empty_file = \<lparr>disk_path = ''e'', pak_path = replicate 57 0, f_offset = 0, f_size = 0\<rparr>"

text \<open>Builders: one pending file, two pending files, and 67108864 empty ones.\<close>

definition one_file :: pak_builder where
  "one_file = \<lparr>b_files = [\<lparr>disk_path = ''x'',
          pak_path = strncpy name_a MAX_PAK_NAME_LEN @ [0], f_offset = 0, f_size = 3\<rparr>]\<rparr>"

definition two_files :: pak_builder where
  "two_files = \<lparr>b_files =
     [\<lparr>disk_path = ''x'', pak_path = strncpy name_a MAX_PAK_NAME_LEN @ [0], f_offset = 0, f_size = 3\<rparr>,
      \<lparr>disk_path = ''y'', pak_path = strncpy name_b MAX_PAK_NAME_LEN @ [0], f_offset = 0, f_size = 1\<rparr>]\<rparr>"

definition many_files :: pak_builder where
  "many_files = \<lparr>b_files = replicate 67108864 empty_file\<rparr>"

text \<open>
  Lists of sources and names to register: two files \<open>a\<close> and \<open>b\<close>; two files both
  named \<open>a\<close>; one file whose name has a NUL byte inside; and, on a disk with a file of
  \<open>2 ^ 32 - 140\<close> bytes, that file followed by a file of one byte.
\<close>

definition ab_list :: "(string \<times> byte list) list" where
  "ab_list = [(''x'', name_a), (''y'', name_b)]"

definition dup_list :: "(string \<times> byte list) list" where
  "dup_list = [(''x'', name_a), (''y'', name_a)]"

definition nul_name :: "byte list" where
  "nul_name = [0x61, 0, 0x62]"

definition nul_list :: "(string \<times> byte list) list" where
  "nul_list = [(''x'', nul_name)]"

definition big_disk :: "string \<Rightarrow> byte list option" where
  "big_disk p = (if p = ''h'' then Some (replicate 4294967156 0)
     else if p = ''y'' then Some [9] else None)"

definition big_list :: "(string \<times> byte list) list" where
  "big_list = [(''h'', name_a), (''y'', name_b)]"

text \<open>A single source of \<open>2 ^ 32 - 1\<close> bytes, the largest that \<^verbatim>\<open>add_file\<close> accepts.\<close>

definition max_disk :: "string \<Rightarrow> byte list option" where
  "max_disk p = (if p = ''m'' then Some (replicate 4294967295 0) else None)"

definition max_list :: "(string \<times> byte list) list" where
  "max_list = [(''m'', name_a)]"

definition one_pak :: "byte list" where
  "one_pak = PACK @ le32 12 @ le32 64 @ strncpy name_a 56 @ le32 76 @ le32 3 @ [1, 2, 3]"

definition big_pak :: "byte list" where
  "big_pak = PACK @ le32 12 @ le32 128
     @ strncpy name_a 56 @ le32 140 @ le32 4294967156
     @ strncpy name_b 56 @ le32 0 @ le32 1
     @ replicate 4294967156 0 @ [9]"

section \<open>Bytes and headers\<close>

lemma le32_inv: "from_le32 (le32 w) = w"
proof (rule bit_word_eqI)
  fix n :: nat
  assume n: "n < LENGTH(32)"
  consider "n < 8" | "8 \<le> n" "n < 16" | "16 \<le> n" "n < 24" | "24 \<le> n"
    by linarith
  then show "bit (from_le32 (le32 w)) n = bit w n"
  proof cases
    case 1 then show ?thesis using n by (auto simp: from_le32_def le32_def bit_simps)
  next
    case 2 then show ?thesis using n by (auto simp: from_le32_def le32_def bit_simps)
  next
    case 3 then show ?thesis using n by (auto simp: from_le32_def le32_def bit_simps)
  next
    case 4 then show ?thesis using n by (auto simp: from_le32_def le32_def bit_simps)
  qed
qed

lemma length_le32 [simp]: "length (le32 w) = 4"
  by (simp add: le32_def)

lemma length_strncpy [simp]: "length (strncpy src n) = n"
  by (simp add: strncpy_def)

lemma length_PACK [simp]: "length PACK = 4"
  by (simp add: PACK_def)

lemma from_le32_le32 [simp]: "from_le32 (le32 w) = w"
  by (rule le32_inv)

lemma from_le32_append [simp]: "from_le32 (le32 w @ rest) = w"
  using le32_inv [of w] by (simp add: from_le32_def nth_append)

lemma decode_header_PACK:
  "decode_header (take 12 (PACK @ le32 off @ le32 sz @ rest)) =
     \<lparr>hdr_id = PACK, hdr_offset = off, hdr_size = sz\<rparr>"
  by (simp add: decode_header_def)

section \<open>What \<open>open_archive\<close> does with a file it can open\<close>

lemma open_archive_Some:
  assumes "m_file a0 \<noteq> Stale"
  shows "open_archive (Some bytes) a0 =
     (let hdr = decode_header (take 12 bytes);
          sz = unat (hdr_size hdr);
          off = unat (hdr_offset hdr);
          cnt = sz div 64;
          got = take sz (drop off bytes);
          tbl = decode_table cnt (got @ replicate (64 * cnt - length got) 0)
      in if length bytes < 12 \<or> hdr_id hdr \<noteq> PACK
         then (Returns False, \<lparr>m_file = Stale, m_fileSize = length bytes, m_files = [],
                 m_errno = InvalidHeader, m_lookupMap = Map.empty\<rparr>)
         else if cnt = 0
         then (Throws Out_of_range, \<lparr>m_file = Opened \<lparr>data = bytes, pos = off\<rparr>,
                 m_fileSize = length bytes, m_files = [], m_errno = NoError,
                 m_lookupMap = Map.empty\<rparr>)
         else if 64 * cnt < length got
         then (Undefined, \<lparr>m_file = Opened \<lparr>data = bytes, pos = off\<rparr>,
                 m_fileSize = length bytes, m_files = replicate cnt zero_entry,
                 m_errno = NoError, m_lookupMap = Map.empty\<rparr>)
         else if length got \<noteq> sz
         then (Returns False, \<lparr>m_file = Stale, m_fileSize = length bytes, m_files = tbl,
                 m_errno = InvalidFileEntry, m_lookupMap = Map.empty\<rparr>)
         else (Returns True, \<lparr>m_file = Opened \<lparr>data = bytes, pos = off + sz\<rparr>,
                 m_fileSize = length bytes, m_files = tbl, m_errno = NoError,
                 m_lookupMap = populate tbl 0 Map.empty\<rparr>))"
proof (cases a0)
  case (fields f fs fl e m)
  with assms have "f \<noteq> Stale" by simp
  then show ?thesis
    unfolding fields
    by (simp add: open_archive_def close_def Let_def sizeof_pak_header_t_def
      fread_bytes_def fread_advance_def fseek_set_def sizeof_pak_file_t_def
      split: FILE_ptr.splits)
qed

lemma open_archive_PACK:
  assumes "m_file a0 \<noteq> Stale"
  shows "open_archive (Some (PACK @ le32 off @ le32 sz @ rest)) a0 =
     (let bytes = PACK @ le32 off @ le32 sz @ rest;
          cnt = unat sz div 64;
          got = take (unat sz) (drop (unat off) bytes);
          tbl = decode_table cnt (got @ replicate (64 * cnt - length got) 0)
      in if cnt = 0
         then (Throws Out_of_range, \<lparr>m_file = Opened \<lparr>data = bytes, pos = unat off\<rparr>,
                 m_fileSize = length bytes, m_files = [], m_errno = NoError,
                 m_lookupMap = Map.empty\<rparr>)
         else if 64 * cnt < length got
         then (Undefined, \<lparr>m_file = Opened \<lparr>data = bytes, pos = unat off\<rparr>,
                 m_fileSize = length bytes, m_files = replicate cnt zero_entry,
                 m_errno = NoError, m_lookupMap = Map.empty\<rparr>)
         else if length got \<noteq> unat sz
         then (Returns False, \<lparr>m_file = Stale, m_fileSize = length bytes, m_files = tbl,
                 m_errno = InvalidFileEntry, m_lookupMap = Map.empty\<rparr>)
         else (Returns True, \<lparr>m_file = Opened \<lparr>data = bytes, pos = unat off + unat sz\<rparr>,
                 m_fileSize = length bytes, m_files = tbl, m_errno = NoError,
                 m_lookupMap = populate tbl 0 Map.empty\<rparr>))"
  unfolding open_archive_Some [OF assms] decode_header_PACK Let_def
  by (simp cong del: if_weak_cong split del: if_split)

lemma pak_archive_init_not_Stale: "m_file pak_archive_init \<noteq> Stale"
  by (simp add: pak_archive_init_def)

lemma write_no_files:
  "write_archive disk True buf0 pak_builder_init = (True, Some empty_pak, pak_builder_init)"
  by (simp add: write_archive_def pak_builder_init_def empty_pak_def Let_def encode_header_def
      ostream_write_def sizeof_pak_header_t_def size_t_def strncpy_def c_str_def PACK_def)

section \<open>Opening malformed and empty archives\<close>

text \<open>
  Claim C2 says that an archive whose header has table size 0, such as the one the
  builder writes for no files, opens successfully with no entries. In the code the
  vector of entries is then empty and \<^verbatim>\<open>m_files.at(0)\<close> throws
  \<^verbatim>\<open>std::out_of_range\<close> before any read: for every reader whose stream pointer is
  null or open and every file of at least 12 bytes with the magic tag and table size 0,
  \<^verbatim>\<open>open\<close> leaves by that exception.
\<close>

theorem open_table_size_zero_throws:
  assumes "m_file a0 \<noteq> Stale" and "12 \<le> length bytes"
    and "hdr_id (decode_header (take 12 bytes)) = PACK"
    and "hdr_size (decode_header (take 12 bytes)) = 0"
  shows "fst (open_archive (Some bytes) a0) = Throws Out_of_range"
  using assms(2-) by (simp add: open_archive_Some [OF assms(1)] Let_def)

theorem open_table_size_zero_throws_witness:
  "write_archive sample_disk True zero_buf pak_builder_init
     = (True, Some empty_pak, pak_builder_init)
   \<and> fst (open_archive (Some empty_pak) pak_archive_init) = Throws Out_of_range"
proof -
  have 2: "12 \<le> length empty_pak" by (simp add: empty_pak_def)
  have 3: "hdr_id (decode_header (take 12 empty_pak)) = PACK"
    by (simp add: empty_pak_def decode_header_def)
  have 4: "hdr_size (decode_header (take 12 empty_pak)) = 0"
    by (simp add: empty_pak_def decode_header_def)
  show ?thesis
    using open_table_size_zero_throws [OF pak_archive_init_not_Stale 2 3 4] write_no_files
    by simp
qed

text \<open>
  Claim C5 says that a reader whose \<^verbatim>\<open>open\<close> failed looks as it does after
  \<^verbatim>\<open>close()\<close>: not good, no files, empty lookup index. When the header announces
  at least one entry and the file ends before the table does, \<^verbatim>\<open>open\<close> returns
  false with \<^verbatim>\<open>InvalidFileEntry\<close>, the reader is not good and its lookup index is
  empty, but the entry vector keeps the \<^verbatim>\<open>hdr.size / 64\<close> entries it was resized
  to, so \<^verbatim>\<open>file_count()\<close> is not 0 and the enumeration is not empty, and
  \<^verbatim>\<open>m_file\<close> is left pointing to the closed stream.
\<close>

theorem open_short_table_keeps_entries:
  assumes "m_file a0 \<noteq> Stale" and "12 \<le> length bytes"
    and "hdr = decode_header (take 12 bytes)"
    and "hdr_id hdr = PACK"
    and "64 \<le> unat (hdr_size hdr)"
    and "length bytes - unat (hdr_offset hdr) < unat (hdr_size hdr)"
    and "length bytes - unat (hdr_offset hdr) \<le> 64 * (unat (hdr_size hdr) div 64)"
  shows "\<exists>a. open_archive (Some bytes) a0 = (Returns False, a)
     \<and> last_error a = InvalidFileEntry \<and> \<not> good a \<and> m_lookupMap a = Map.empty
     \<and> file_count a = int (unat (hdr_size hdr) div 64) \<and> file_count a \<noteq> 0
     \<and> length (enumerate_archive a) = unat (hdr_size hdr) div 64
     \<and> m_file a = Stale"
proof -
  have "unat (hdr_size hdr) div 64 \<noteq> 0"
    using assms(5) by (simp add: div_eq_0_iff)
  then show ?thesis
    using assms(2-)
    by (simp add: open_archive_Some [OF assms(1)] Let_def good_def last_error_def
        file_count_def decode_table_def enumerate_archive_def iter_begin_def iter_end_def
        min_def)
qed

theorem open_short_table_keeps_entries_witness:
  "\<exists>a. open_archive (Some truncated_pak) pak_archive_init = (Returns False, a)
     \<and> last_error a = InvalidFileEntry \<and> \<not> good a \<and> m_lookupMap a = Map.empty
     \<and> file_count a = 1 \<and> length (enumerate_archive a) = 1 \<and> m_file a = Stale
     \<and> file_count (snd (close pak_archive_init)) = 0
     \<and> m_file (snd (close pak_archive_init)) = Null"
proof -
  have h: "decode_header (take 12 truncated_pak)
      = \<lparr>hdr_id = PACK, hdr_offset = 12, hdr_size = 64\<rparr>"
    by (simp add: truncated_pak_def decode_header_def)
  have l: "length truncated_pak = 12"
    by (simp add: truncated_pak_def)
  have 1: "12 \<le> length truncated_pak" by (simp add: l)
  have 2: "hdr_id \<lparr>hdr_id = PACK, hdr_offset = 12, hdr_size = 64\<rparr> = PACK" by simp
  have 3: "64 \<le> unat (hdr_size \<lparr>hdr_id = PACK, hdr_offset = 12, hdr_size = 64\<rparr>)" by simp
  have 4: "length truncated_pak - unat (hdr_offset \<lparr>hdr_id = PACK, hdr_offset = 12, hdr_size = 64\<rparr>)
      < unat (hdr_size \<lparr>hdr_id = PACK, hdr_offset = 12, hdr_size = 64\<rparr>)" by (simp add: l)
  have 5: "length truncated_pak - unat (hdr_offset \<lparr>hdr_id = PACK, hdr_offset = 12, hdr_size = 64\<rparr>)
      \<le> 64 * (unat (hdr_size \<lparr>hdr_id = PACK, hdr_offset = 12, hdr_size = 64\<rparr>) div 64)" by (simp add: l)
  show ?thesis
    using open_short_table_keeps_entries [OF pak_archive_init_not_Stale 1 h [symmetric] 2 3 4 5]
    by (auto simp add: close_def pak_archive_init_def file_count_def)
qed

text \<open>
  Claim C6 says that a table size that is not a multiple of 64 makes \<^verbatim>\<open>open\<close>
  return false with \<^verbatim>\<open>InvalidFileEntry\<close>. The code never compares the table size
  with the record size. For a header with the magic tag and such a table size: below 64
  the entry vector is empty and \<^verbatim>\<open>m_files.at(0)\<close> throws; from 64 on, when the
  file holds more table bytes than the \<^verbatim>\<open>hdr.size / 64\<close> entries of the vector
  can take, \<^verbatim>\<open>fread\<close> writes past the vector; only when the file ends within the
  vector's capacity does \<^verbatim>\<open>open\<close> return false with \<^verbatim>\<open>InvalidFileEntry\<close>.
\<close>

theorem open_table_size_not_multiple:
  assumes "m_file a0 \<noteq> Stale" and "12 \<le> length bytes"
    and "hdr = decode_header (take 12 bytes)"
    and "hdr_id hdr = PACK"
    and "unat (hdr_size hdr) mod 64 \<noteq> 0"
  shows "(unat (hdr_size hdr) < 64 \<longrightarrow>
            fst (open_archive (Some bytes) a0) = Throws Out_of_range)
     \<and> (64 \<le> unat (hdr_size hdr)
          \<and> 64 * (unat (hdr_size hdr) div 64) < length bytes - unat (hdr_offset hdr) \<longrightarrow>
            fst (open_archive (Some bytes) a0) = Undefined)
     \<and> (64 \<le> unat (hdr_size hdr)
          \<and> length bytes - unat (hdr_offset hdr) \<le> 64 * (unat (hdr_size hdr) div 64) \<longrightarrow>
            fst (open_archive (Some bytes) a0) = Returns False
            \<and> m_errno (snd (open_archive (Some bytes) a0)) = InvalidFileEntry)"
proof -
  have lt: "64 * (unat (hdr_size hdr) div 64) < unat (hdr_size hdr)"
    using assms(5) mult_div_mod_eq [of 64 "unat (hdr_size hdr)"] by linarith
  have nz: "64 \<le> unat (hdr_size hdr) \<Longrightarrow> unat (hdr_size hdr) div 64 \<noteq> 0"
    by (simp add: div_eq_0_iff)
  show ?thesis
    using assms(2-4) lt nz
    by (simp add: open_archive_Some [OF assms(1)] Let_def min_def div_eq_0_iff)
qed

theorem open_table_size_not_multiple_witness:
  "fst (open_archive (Some ragged_pak) pak_archive_init) = Throws Out_of_range
   \<and> fst (open_archive (Some overrun_pak) pak_archive_init) = Undefined"
proof -
  have h1: "decode_header (take 12 ragged_pak)
      = \<lparr>hdr_id = PACK, hdr_offset = 12, hdr_size = 10\<rparr>"
    unfolding ragged_pak_def by (rule decode_header_PACK)
  have h2: "decode_header (take 12 overrun_pak)
      = \<lparr>hdr_id = PACK, hdr_offset = 12, hdr_size = 65\<rparr>"
    unfolding overrun_pak_def by (rule decode_header_PACK)
  have l: "length ragged_pak = 22" "length overrun_pak = 77"
    by (simp_all add: ragged_pak_def overrun_pak_def)
  have 1: "12 \<le> length ragged_pak" "12 \<le> length overrun_pak" by (simp_all add: l)
  have 2: "hdr_id \<lparr>hdr_id = PACK, hdr_offset = 12, hdr_size = 10\<rparr> = PACK"
     "hdr_id \<lparr>hdr_id = PACK, hdr_offset = 12, hdr_size = 65\<rparr> = PACK" by simp_all
  have 3: "unat (hdr_size \<lparr>hdr_id = PACK, hdr_offset = 12, hdr_size = 10\<rparr>) mod 64 \<noteq> 0"
    "unat (hdr_size \<lparr>hdr_id = PACK, hdr_offset = 12, hdr_size = 65\<rparr>) mod 64 \<noteq> 0" by simp_all
  show ?thesis
    using open_table_size_not_multiple [OF pak_archive_init_not_Stale 1(1) h1 [symmetric] 2(1) 3(1)]
      open_table_size_not_multiple [OF pak_archive_init_not_Stale 1(2) h2 [symmetric] 2(2) 3(2)]
    by (simp add: l)
qed

section \<open>C strings and entry names\<close>

lemma c_str_idem [simp]: "c_str (c_str bs) = c_str bs"
  by (simp add: c_str_def)

lemma c_str_no_NUL: "0 \<notin> set bs \<Longrightarrow> c_str bs = bs"
  by (simp add: c_str_def takeWhile_eq_all_conv) metis

lemma length_c_str: "length (c_str bs) \<le> length bs"
  by (simp add: c_str_def length_takeWhile_le)

lemma c_str_append_NUL [simp]: "c_str (c_str bs @ 0 # rest) = c_str bs"
proof -
  have "\<forall>x\<in>set (takeWhile (\<lambda>c. c \<noteq> 0) bs). x \<noteq> 0"
    by (auto dest: set_takeWhileD)
  then show ?thesis
    by (simp add: c_str_def takeWhile_append2)
qed

lemma strncpy_eq:
  "length (c_str src) \<le> n \<Longrightarrow> strncpy src n = c_str src @ replicate (n - length (c_str src)) 0"
  by (simp add: strncpy_def)

lemma c_str_strncpy:
  assumes "length nm \<le> n"
  shows "c_str (strncpy nm n @ [0]) = c_str nm"
proof -
  have le: "length (c_str nm) \<le> n"
    using assms length_c_str [of nm] by linarith
  have "replicate (n - length (c_str nm)) 0 @ [0::byte] = 0 # replicate (n - length (c_str nm)) 0"
    by (simp add: replicate_append_same)
  then show ?thesis
    by (simp add: strncpy_eq [OF le])
qed

lemma strncpy_pak_path:
  "length nm \<le> n \<Longrightarrow> strncpy (strncpy nm n @ [0]) n = strncpy nm n"
  by (simp add: strncpy_def [of "strncpy nm n @ [0]"] c_str_strncpy) (simp add: strncpy_def)

lemma decode_name_strncpy:
  "length nm \<le> MAX_PAK_NAME_LEN \<Longrightarrow> decode_name (strncpy nm MAX_PAK_NAME_LEN) = c_str nm"
  by (simp add: decode_name_def c_str_strncpy)

section \<open>Lookups on a closed reader\<close>

lemma open_archive_None:
  "m_file a0 \<noteq> Stale \<Longrightarrow> open_archive None a0 =
     (Returns False, \<lparr>m_file = Null, m_fileSize = m_fileSize a0, m_files = [],
        m_errno = OpenFailed, m_lookupMap = Map.empty\<rparr>)"
  by (cases a0) (simp add: open_archive_def close_def split: FILE_ptr.splits)

lemma open_archive_Stale:
  "m_file a0 = Stale \<Longrightarrow> open_archive src a0 = (Undefined, a0)"
  by (simp add: open_archive_def close_def)

lemma open_archive_not_True_lookup:
  assumes "open_archive src a0 = (r, a)" and "r = Returns False \<or> r = Throws e"
  shows "m_lookupMap a = Map.empty"
proof (cases "m_file a0 = Stale")
  case True
  with assms show ?thesis by (auto simp: open_archive_Stale)
next
  case False
  show ?thesis
  proof (cases src)
    case None
    with assms False show ?thesis by (auto simp: open_archive_None)
  next
    case (Some bytes)
    with assms show ?thesis
      by (auto simp: open_archive_Some [OF False] Let_def split: if_splits)
  qed
qed

lemma close_lookup: "close a0 = (Returns (), a) \<Longrightarrow> m_lookupMap a = Map.empty"
  by (auto simp: close_def split: FILE_ptr.splits)

text \<open>
  Claim C10: on a reader that was never opened successfully or that was closed, that is
  a freshly constructed reader, a reader as \<^verbatim>\<open>close()\<close> leaves it, or a reader as
  an \<^verbatim>\<open>open\<close> that returned false or threw leaves it, \<^verbatim>\<open>read_file\<close>,
  \<^verbatim>\<open>extract_file\<close> and \<^verbatim>\<open>stat\<close> return false for every name; the reader
  is unchanged (so its stream was neither moved nor read), nothing is stored in the
  caller's buffer or out-parameters and no output file is created.
\<close>

theorem closed_reader_lookups_fail:
  assumes "a = pak_archive_init \<or> close a0 = (Returns (), a)
     \<or> open_archive src a0 = (Returns False, a) \<or> open_archive src a0 = (Throws e, a)"
  shows "read_file nm n a = (Returns False, [], a)
     \<and> extract_file nm sink_ok buf0 a = (Returns False, None, a)
     \<and> stat nm a = (Returns False, None)"
proof -
  have "m_lookupMap a = Map.empty"
    using assms open_archive_not_True_lookup [of src a0 _ a e] close_lookup [of a0 a]
    by (auto simp: pak_archive_init_def)
  then show ?thesis
    by (simp add: read_file_def extract_file_def stat_def)
qed

theorem closed_reader_lookups_fail_witness:
  "read_file name_a 4 (snd (open_archive (Some [1, 2, 3]) pak_archive_init))
     = (Returns False, [], snd (open_archive (Some [1, 2, 3]) pak_archive_init))
   \<and> extract_file name_a True zero_buf (snd (open_archive (Some [1, 2, 3]) pak_archive_init))
     = (Returns False, None, snd (open_archive (Some [1, 2, 3]) pak_archive_init))
   \<and> stat name_a (snd (open_archive (Some [1, 2, 3]) pak_archive_init)) = (Returns False, None)
   \<and> fst (open_archive (Some [1, 2, 3]) pak_archive_init) = Returns False"
proof -
  have f: "fst (open_archive (Some [1, 2, 3]) pak_archive_init) = Returns False"
    by (simp add: open_archive_Some [OF pak_archive_init_not_Stale] Let_def)
  then have "open_archive (Some [1, 2, 3]) pak_archive_init
     = (Returns False, snd (open_archive (Some [1, 2, 3]) pak_archive_init))"
    by (metis prod.collapse)
  then show ?thesis
    using closed_reader_lookups_fail [of "snd (open_archive (Some [1, 2, 3]) pak_archive_init)"
       pak_archive_init "Some [1, 2, 3]" Out_of_range name_a 4 True zero_buf] f
    by simp
qed

section \<open>Registering a file\<close>

text \<open>
  Claim C8 says that \<^verbatim>\<open>add_file\<close> returns false when the archive name has more
  than 56 bytes or the source has more than \<^verbatim>\<open>UINT32_MAX\<close> bytes, and otherwise
  appends one pending record with the snapshotted size and the given name. The name is
  copied with \<^verbatim>\<open>strncpy\<close>, which stops at the first NUL byte, and the size is
  taken by \<^verbatim>\<open>std::filesystem::file_size\<close>, which throws when the source has no
  file. As amended: \<^verbatim>\<open>add_file\<close> returns false and leaves the builder as it is
  when the archive name has more than 56 bytes, and when the source has more than
  \<^verbatim>\<open>UINT32_MAX\<close> bytes; for a name of at most 56 bytes and a source that has no
  file, \<^verbatim>\<open>file_size\<close> throws and the builder is as it was; for a source of at
  most \<^verbatim>\<open>UINT32_MAX\<close> bytes and a name of at most 56 bytes it returns true and
  appends exactly one pending record, with the source's byte length as its size and
  with the given name up to its first NUL byte, which is the given name itself when
  that has no NUL byte.
\<close>

theorem add_file_checks:
  "(MAX_PAK_NAME_LEN < length nm \<longrightarrow> add_file disk p nm b = (Returns False, b))
   \<and> (disk p = Some content \<and> UINT32_MAX < length content \<longrightarrow>
        add_file disk p nm b = (Returns False, b))
   \<and> (disk p = None \<and> length nm \<le> MAX_PAK_NAME_LEN \<longrightarrow>
        add_file disk p nm b = (Throws Filesystem_error, b))
   \<and> (disk p = Some content \<and> length content \<le> UINT32_MAX \<and> length nm \<le> MAX_PAK_NAME_LEN \<longrightarrow>
        add_file disk p nm b = (Returns True, b\<lparr>b_files := b_files b @
          [\<lparr>disk_path = p, pak_path = strncpy nm MAX_PAK_NAME_LEN @ [0], f_offset = 0,
            f_size = length content\<rparr>]\<rparr>)
        \<and> c_str (strncpy nm MAX_PAK_NAME_LEN @ [0]) = c_str nm
        \<and> (0 \<notin> set nm \<longrightarrow> c_str (strncpy nm MAX_PAK_NAME_LEN @ [0]) = nm))"
  by (simp add: add_file_def Let_def c_str_strncpy c_str_no_NUL)

text \<open>
  The name \<open>61 00 62\<close> has three bytes. \<^verbatim>\<open>add_file\<close> returns true for it and
  appends the record it appends for the name \<open>61\<close>: the name of the pending record is
  \<open>a\<close>, not the given name. For the path \<open>z\<close>, which has no file, it neither returns
  false nor appends a record.
\<close>

theorem add_file_given_name_counterexample:
  "length nul_name \<le> MAX_PAK_NAME_LEN
   \<and> sample_disk ''x'' = Some [1, 2, 3]
   \<and> add_file sample_disk ''x'' nul_name pak_builder_init = (Returns True, one_file)
   \<and> add_file sample_disk ''x'' name_a pak_builder_init = (Returns True, one_file)
   \<and> c_str (pak_path (hd (b_files one_file))) = name_a
   \<and> name_a \<noteq> nul_name
   \<and> sample_disk ''z'' = None
   \<and> add_file sample_disk ''z'' name_a pak_builder_init
       = (Throws Filesystem_error, pak_builder_init)"
proof -
  have s: "strncpy nul_name MAX_PAK_NAME_LEN = strncpy name_a MAX_PAK_NAME_LEN"
    by (simp add: strncpy_def c_str_def nul_name_def name_a_def)
  have l: "length nul_name \<le> MAX_PAK_NAME_LEN" "length name_a \<le> MAX_PAK_NAME_LEN"
    "name_a \<noteq> nul_name"
    by (simp_all add: nul_name_def name_a_def MAX_PAK_NAME_LEN_def)
  have c: "c_str (strncpy name_a MAX_PAK_NAME_LEN @ [0]) = name_a"
    unfolding c_str_strncpy [OF l(2)] by (simp add: c_str_def name_a_def)
  have d: "sample_disk ''x'' = Some [1, 2, 3]" "sample_disk ''z'' = None"
    by (simp_all add: sample_disk_def)
  have 1: "add_file sample_disk ''x'' nul_name pak_builder_init = (Returns True, one_file)"
    using l(1) unfolding add_file_def d s
    by (simp add: Let_def UINT32_MAX_def pak_builder_init_def one_file_def)
  have 2: "add_file sample_disk ''x'' name_a pak_builder_init = (Returns True, one_file)"
    using l(2) unfolding add_file_def d
    by (simp add: Let_def UINT32_MAX_def pak_builder_init_def one_file_def)
  have 3: "add_file sample_disk ''z'' name_a pak_builder_init
       = (Throws Filesystem_error, pak_builder_init)"
    using l(2) unfolding add_file_def d by (simp add: Let_def)
  have 4: "c_str (pak_path (hd (b_files one_file))) = name_a"
    using c by (simp add: one_file_def)
  from l d 1 2 3 4 show ?thesis by simp
qed

theorem add_file_checks_witness:
  "add_file sample_disk ''x'' (replicate 57 0x61) pak_builder_init
     = (Returns False, pak_builder_init)
   \<and> add_file huge_disk ''x'' name_a pak_builder_init = (Returns False, pak_builder_init)
   \<and> add_file sample_disk ''z'' name_a pak_builder_init
     = (Throws Filesystem_error, pak_builder_init)
   \<and> add_file sample_disk ''x'' name_a pak_builder_init
     = (Returns True, \<lparr>b_files = [\<lparr>disk_path = ''x'',
          pak_path = strncpy name_a MAX_PAK_NAME_LEN @ [0], f_offset = 0, f_size = 3\<rparr>]\<rparr>)
   \<and> c_str (strncpy name_a MAX_PAK_NAME_LEN @ [0]) = name_a
   \<and> add_file sample_disk ''x'' nul_name pak_builder_init
     = (Returns True, \<lparr>b_files = [\<lparr>disk_path = ''x'',
          pak_path = strncpy nul_name MAX_PAK_NAME_LEN @ [0], f_offset = 0, f_size = 3\<rparr>]\<rparr>)
   \<and> c_str (strncpy nul_name MAX_PAK_NAME_LEN @ [0]) = name_a"
  using add_file_checks [of "replicate 57 0x61" sample_disk "''x''" pak_builder_init "[]"]
    add_file_checks [of name_a huge_disk "''x''" pak_builder_init "replicate 4294967296 0"]
    add_file_checks [of name_a sample_disk "''z''" pak_builder_init "[]"]
    add_file_checks [of name_a sample_disk "''x''" pak_builder_init "[1, 2, 3]"]
    add_file_checks [of nul_name sample_disk "''x''" pak_builder_init "[1, 2, 3]"]
  by (simp add: MAX_PAK_NAME_LEN_def UINT32_MAX_def huge_disk_def sample_disk_def name_a_def
      nul_name_def pak_builder_init_def c_str_def)

section \<open>Reading a file into a buffer\<close>

text \<open>
  Claim C4 says that \<^verbatim>\<open>read_file(name, buffer, max_size)\<close> reads
  \<open>min(entry.size, max_size)\<close> bytes from the entry's offset. The code computes that
  minimum in \<^verbatim>\<open>toread\<close> and then asks \<^verbatim>\<open>fread\<close> for \<^verbatim>\<open>size\<close> bytes: for
  a name in the lookup index it seeks to the entry's offset and reads up to
  \<^verbatim>\<open>max_size\<close> bytes, all of them when the archive has that many after the offset,
  whatever the entry's size; it returns true exactly when \<^verbatim>\<open>max_size\<close> is not 0
  and that many bytes were there.
\<close>

theorem read_file_reads_size_bytes:
  assumes "m_lookupMap a nm = Some i" and "i < length (m_files a)" and "m_file a = Opened s"
    and "got = take n (drop (unat (ent_offset (m_files a ! i))) (data s))"
  shows "read_file nm n a = (Returns (n \<noteq> 0 \<and> length got = n), got,
            a\<lparr>m_file := Opened \<lparr>data = data s,
                 pos = unat (ent_offset (m_files a ! i)) + length got\<rparr>\<rparr>)
     \<and> (unat (ent_offset (m_files a ! i)) + n \<le> length (data s) \<longrightarrow> length got = n)"
  using assms
  by (simp add: read_file_def Let_def fseek_set_def fread_bytes_def fread_advance_def)

lemma decode_table_two:
  "length e0 = 64 \<Longrightarrow> length e1 = 64 \<Longrightarrow>
   decode_table 2 (e0 @ e1 @ rest) = [decode_entry e0, decode_entry e1]"
  by (simp add: decode_table_def sizeof_pak_file_t_def numeral_2_eq_2 upt_rec)

lemma decode_entry_fields:
  "length nm = 56 \<Longrightarrow> decode_entry (nm @ le32 off @ le32 sz) = \<lparr>ent_name = nm, ent_offset = off, ent_size = sz\<rparr>"
  by (simp add: decode_entry_def MAX_PAK_NAME_LEN_def)

lemma open_two_file_pak:
  "open_archive (Some two_file_pak) pak_archive_init =
     (Returns True, \<lparr>m_file = Opened \<lparr>data = two_file_pak, pos = 140\<rparr>, m_fileSize = 144,
        m_files = [\<lparr>ent_name = strncpy name_a 56, ent_offset = 140, ent_size = 3\<rparr>,
                   \<lparr>ent_name = strncpy name_b 56, ent_offset = 143, ent_size = 1\<rparr>],
        m_errno = NoError, m_lookupMap = [name_a \<mapsto> 0, name_b \<mapsto> 1]\<rparr>)"
proof -
  have n: "decode_name (strncpy name_a 56) = name_a" "decode_name (strncpy name_b 56) = name_b"
    using decode_name_strncpy [of name_a] decode_name_strncpy [of name_b]
    by (simp_all add: MAX_PAK_NAME_LEN_def name_a_def name_b_def c_str_def)
  have t: "decode_table 2 ((strncpy name_a 56 @ le32 140 @ le32 3)
          @ (strncpy name_b 56 @ le32 143 @ le32 1) @ [])
     = [\<lparr>ent_name = strncpy name_a 56, ent_offset = 140, ent_size = 3\<rparr>,
        \<lparr>ent_name = strncpy name_b 56, ent_offset = 143, ent_size = 1\<rparr>]"
    using decode_table_two [of "strncpy name_a 56 @ le32 140 @ le32 3"
        "strncpy name_b 56 @ le32 143 @ le32 1" "[]"]
    by (simp add: decode_entry_fields)
  have ab: "name_a \<noteq> name_b" by (simp add: name_a_def name_b_def)
  show ?thesis
    unfolding two_file_pak_def
    using t ab
    by (simp add: open_archive_PACK [OF pak_archive_init_not_Stale] Let_def umap_insert_def n
        split del: if_split)
qed


theorem read_file_reads_size_bytes_witness:
  "\<exists>a a'. open_archive (Some two_file_pak) pak_archive_init = (Returns True, a)
     \<and> stat name_a a = (Returns True, Some (3, 140))
     \<and> read_file name_a 4 a = (Returns True, [1, 2, 3, 9], a')
     \<and> min 3 4 = (3::nat)"
proof -
  let ?a = "snd (open_archive (Some two_file_pak) pak_archive_init)"
  have ab: "name_a \<noteq> name_b" by (simp add: name_a_def name_b_def)
  have 1: "m_lookupMap ?a name_a = Some 0" using ab by (simp add: open_two_file_pak)
  have 2: "0 < length (m_files ?a)" by (simp add: open_two_file_pak)
  have 3: "m_file ?a = Opened \<lparr>data = two_file_pak, pos = 140\<rparr>" by (simp add: open_two_file_pak)
  have 4: "[1, 2, 3, 9] = take 4 (drop (unat (ent_offset (m_files ?a ! 0)))
      (data \<lparr>data = two_file_pak, pos = 140\<rparr>))"
    by (simp add: open_two_file_pak) (simp add: two_file_pak_def)
  have 5: "stat name_a ?a = (Returns True, Some (3, 140))"
    using ab by (simp add: open_two_file_pak stat_def)
  show ?thesis
    using read_file_reads_size_bytes [OF 1 2 3 4] 5
    by (simp add: open_two_file_pak)
qed

section \<open>The lookup index\<close>

lemma umap_insert_other: "k' \<noteq> k \<Longrightarrow> umap_insert k' v m k = m k"
  by (simp add: umap_insert_def split: option.splits)

lemma umap_insert_same_None: "m k = None \<Longrightarrow> umap_insert k v m k = Some v"
  by (simp add: umap_insert_def)

lemma umap_insert_Some: "m k = Some v \<Longrightarrow> umap_insert k' v' m k = Some v"
  by (auto simp add: umap_insert_def split: option.splits)

lemma populate_Some: "m k = Some v \<Longrightarrow> populate fs i m k = Some v"
  by (induction fs arbitrary: i m) (simp_all add: umap_insert_Some)

lemma populate_None_iff:
  "m k = None \<Longrightarrow>
   populate fs i m k = Some v \<longleftrightarrow>
     (\<exists>j<length fs. v = i + j \<and> decode_name (ent_name (fs ! j)) = k
        \<and> (\<forall>j'<j. decode_name (ent_name (fs ! j')) \<noteq> k))"
proof (induction fs arbitrary: i m)
  case Nil
  then show ?case by simp
next
  case (Cons f fs)
  show ?case
  proof (cases "decode_name (ent_name f) = k")
    case True
    have "populate (f # fs) i m k = Some i"
      using Cons.prems True by (simp add: populate_Some umap_insert_same_None)
    moreover have "(\<exists>j<length (f # fs). v = i + j \<and> decode_name (ent_name ((f # fs) ! j)) = k
        \<and> (\<forall>j'<j. decode_name (ent_name ((f # fs) ! j')) \<noteq> k)) \<longleftrightarrow> v = i"
    proof
      assume "\<exists>j<length (f # fs). v = i + j \<and> decode_name (ent_name ((f # fs) ! j)) = k
        \<and> (\<forall>j'<j. decode_name (ent_name ((f # fs) ! j')) \<noteq> k)"
      then obtain j where j: "v = i + j" "\<forall>j'<j. decode_name (ent_name ((f # fs) ! j')) \<noteq> k"
        by blast
      have "j = 0"
      proof (rule ccontr)
        assume "j \<noteq> 0"
        then have "0 < j" by simp
        with j(2) have "decode_name (ent_name ((f # fs) ! 0)) \<noteq> k" by blast
        with True show False by simp
      qed
      with j(1) show "v = i" by simp
    next
      assume "v = i"
      with True show "\<exists>j<length (f # fs). v = i + j \<and> decode_name (ent_name ((f # fs) ! j)) = k
        \<and> (\<forall>j'<j. decode_name (ent_name ((f # fs) ! j')) \<noteq> k)"
        by (intro exI [of _ 0]) simp
    qed
    ultimately show ?thesis by auto
  next
    case False
    then have m': "umap_insert (decode_name (ent_name f)) i m k = None"
      using Cons.prems by (simp add: umap_insert_other)
    have "populate (f # fs) i m k = Some v \<longleftrightarrow>
        (\<exists>j<length fs. v = Suc i + j \<and> decode_name (ent_name (fs ! j)) = k
          \<and> (\<forall>j'<j. decode_name (ent_name (fs ! j')) \<noteq> k))"
      using Cons.IH [of "umap_insert (decode_name (ent_name f)) i m" "Suc i"] m' by simp
    also have "\<dots> \<longleftrightarrow> (\<exists>j<length (f # fs). v = i + j \<and> decode_name (ent_name ((f # fs) ! j)) = k
        \<and> (\<forall>j'<j. decode_name (ent_name ((f # fs) ! j')) \<noteq> k))"
    proof
      assume "\<exists>j<length fs. v = Suc i + j \<and> decode_name (ent_name (fs ! j)) = k
          \<and> (\<forall>j'<j. decode_name (ent_name (fs ! j')) \<noteq> k)"
      then obtain j where j: "j < length fs" "v = Suc i + j" "decode_name (ent_name (fs ! j)) = k"
        "\<forall>j'<j. decode_name (ent_name (fs ! j')) \<noteq> k" by blast
      have "\<forall>j'<Suc j. decode_name (ent_name ((f # fs) ! j')) \<noteq> k"
        using j(4) False by (auto simp: nth_Cons split: nat.splits)
      with j(1-3) show "\<exists>j<length (f # fs). v = i + j \<and> decode_name (ent_name ((f # fs) ! j)) = k
        \<and> (\<forall>j'<j. decode_name (ent_name ((f # fs) ! j')) \<noteq> k)"
        by (intro exI [of _ "Suc j"]) simp
    next
      assume "\<exists>j<length (f # fs). v = i + j \<and> decode_name (ent_name ((f # fs) ! j)) = k
        \<and> (\<forall>j'<j. decode_name (ent_name ((f # fs) ! j')) \<noteq> k)"
      then obtain j where j: "j < length (f # fs)" "v = i + j"
        "decode_name (ent_name ((f # fs) ! j)) = k"
        "\<forall>j'<j. decode_name (ent_name ((f # fs) ! j')) \<noteq> k" by blast
      from j(3) False obtain j0 where j0: "j = Suc j0" by (cases j) auto
      have "\<forall>j'<j0. decode_name (ent_name (fs ! j')) \<noteq> k"
      proof (intro allI impI)
        fix j' assume "j' < j0"
        then have "Suc j' < j" using j0 by simp
        with j(4) have "decode_name (ent_name ((f # fs) ! Suc j')) \<noteq> k" by blast
        then show "decode_name (ent_name (fs ! j')) \<noteq> k" by simp
      qed
      with j j0 show "\<exists>j<length fs. v = Suc i + j \<and> decode_name (ent_name (fs ! j)) = k
          \<and> (\<forall>j'<j. decode_name (ent_name (fs ! j')) \<noteq> k)"
        by (intro exI [of _ j0]) simp
    qed
    finally show ?thesis .
  qed
qed

lemma populate_empty_iff:
  "populate fs 0 Map.empty k = Some i \<longleftrightarrow>
     i < length fs \<and> decode_name (ent_name (fs ! i)) = k
       \<and> (\<forall>j<i. decode_name (ent_name (fs ! j)) \<noteq> k)"
  using populate_None_iff [of Map.empty k fs 0 i] by auto


lemma open_archive_TrueD:
  assumes "open_archive (Some bytes) a0 = (Returns True, a)"
    and "hdr = decode_header (take 12 bytes)"
  shows "unat (hdr_size hdr) = 64 * (unat (hdr_size hdr) div 64)"
    and "unat (hdr_offset hdr) + unat (hdr_size hdr) \<le> length bytes"
    and "a = \<lparr>m_file = Opened \<lparr>data = bytes, pos = unat (hdr_offset hdr) + unat (hdr_size hdr)\<rparr>,
            m_fileSize = length bytes,
            m_files = decode_table (unat (hdr_size hdr) div 64)
                        (take (unat (hdr_size hdr)) (drop (unat (hdr_offset hdr)) bytes)),
            m_errno = NoError,
            m_lookupMap = populate (decode_table (unat (hdr_size hdr) div 64)
                        (take (unat (hdr_size hdr)) (drop (unat (hdr_offset hdr)) bytes))) 0 Map.empty\<rparr>"
proof -
  have ns: "m_file a0 \<noteq> Stale"
    using assms(1) by (auto simp: open_archive_Stale)
  let ?sz = "unat (hdr_size hdr)" and ?off = "unat (hdr_offset hdr)"
  let ?got = "take ?sz (drop ?off bytes)"
  from assms have c: "\<not> 64 * (?sz div 64) < length ?got" "length ?got = ?sz"
    and nz: "?sz div 64 \<noteq> 0"
    and a: "a = \<lparr>m_file = Opened \<lparr>data = bytes, pos = ?off + ?sz\<rparr>,
            m_fileSize = length bytes,
            m_files = decode_table (?sz div 64) (?got @ replicate (64 * (?sz div 64) - length ?got) 0),
            m_errno = NoError,
            m_lookupMap = populate (decode_table (?sz div 64)
                (?got @ replicate (64 * (?sz div 64) - length ?got) 0)) 0 Map.empty\<rparr>"
    by (simp_all add: open_archive_Some [OF ns] Let_def split: if_splits)
  have "64 * (?sz div 64) \<le> ?sz" by simp
  with c show eq: "?sz = 64 * (?sz div 64)" by linarith
  from nz have "0 < ?sz" by (simp add: div_eq_0_iff)
  with c(2) show "?off + ?sz \<le> length bytes" by (simp add: min_def split: if_splits)
  from a c(2) eq show "a = \<lparr>m_file = Opened \<lparr>data = bytes, pos = ?off + ?sz\<rparr>,
            m_fileSize = length bytes,
            m_files = decode_table (?sz div 64) ?got,
            m_errno = NoError,
            m_lookupMap = populate (decode_table (?sz div 64) ?got) 0 Map.empty\<rparr>"
    by simp
qed

lemma decode_table_nth:
  "i < cnt \<Longrightarrow> decode_table cnt bs ! i = decode_entry (take 64 (drop (64 * i) bs))"
  by (simp add: decode_table_def sizeof_pak_file_t_def)

lemma length_decode_table [simp]: "length (decode_table cnt bs) = cnt"
  by (simp add: decode_table_def)

lemma decode_name_a: "decode_name (strncpy name_a 56) = name_a"
  using decode_name_strncpy [of name_a]
  by (simp add: MAX_PAK_NAME_LEN_def name_a_def c_str_def)

lemma open_dup_pak:
  "open_archive (Some dup_pak) pak_archive_init = (Returns True, dup_state)"
proof -
  have t: "decode_table 2 ((strncpy name_a 56 @ le32 140 @ le32 3)
          @ (strncpy name_a 56 @ le32 143 @ le32 1) @ [])
     = [\<lparr>ent_name = strncpy name_a 56, ent_offset = 140, ent_size = 3\<rparr>,
        \<lparr>ent_name = strncpy name_a 56, ent_offset = 143, ent_size = 1\<rparr>]"
    using decode_table_two [of "strncpy name_a 56 @ le32 140 @ le32 3"
        "strncpy name_a 56 @ le32 143 @ le32 1" "[]"]
    by (simp add: decode_entry_fields)
  show ?thesis
    unfolding dup_pak_def dup_state_def
    using t
    by (simp add: open_archive_PACK [OF pak_archive_init_not_Stale] Let_def umap_insert_def
        decode_name_a split del: if_split)
qed

section \<open>What the builder writes\<close>

lemma ostream_write_append:
  "pos s = length (data s) \<Longrightarrow>
   ostream_write s bs = \<lparr>data = data s @ bs, pos = length (data s) + length bs\<rparr>"
  by (simp add: ostream_write_def)

lemma length_encode_entry_of [simp]: "length (encode_entry (entry_of f)) = 64"
  by (simp add: encode_entry_def entry_of_def MAX_PAK_NAME_LEN_def)

lemma size_t_id: "n < 2 ^ 64 \<Longrightarrow> size_t n = n"
  by (simp add: size_t_def)

lemma int64_t_id: "n < 2 ^ 63 \<Longrightarrow> int64_t n = int n"
  by (simp add: int64_t_def size_t_def)

lemma write_table_length [simp]: "length (fst (write_table fs c os)) = length fs"
  by (induction fs arbitrary: c os) (simp_all add: Let_def case_prod_beta)

lemma write_table_fields:
  "map disk_path (fst (write_table fs c os)) = map disk_path fs
   \<and> map pak_path (fst (write_table fs c os)) = map pak_path fs
   \<and> map f_size (fst (write_table fs c os)) = map f_size fs"
  by (induction fs arbitrary: c os) (simp_all add: Let_def case_prod_beta)

lemma write_table_offset:
  "i < length fs \<Longrightarrow> c + sum_list (map f_size fs) < 2 ^ 64 \<Longrightarrow>
   f_offset (fst (write_table fs c os) ! i) = c + sum_list (map f_size (take i fs))"
proof (induction fs arbitrary: c os i)
  case Nil
  then show ?case by simp
next
  case (Cons f fs)
  show ?case
  proof (cases i)
    case 0
    then show ?thesis by (simp add: Let_def case_prod_beta)
  next
    case (Suc j)
    have c': "size_t (c + f_size f) = c + f_size f"
      using Cons.prems(2) by (simp add: size_t_id)
    have "f_offset (fst (write_table fs (c + f_size f) (ostream_write os
              (encode_entry \<lparr>ent_name = strncpy (pak_path f) MAX_PAK_NAME_LEN,
                 ent_offset = word_of_nat c, ent_size = word_of_nat (f_size f)\<rparr>))) ! j)
        = (c + f_size f) + sum_list (map f_size (take j fs))"
      using Cons.prems Suc by (intro Cons.IH) simp_all
    then show ?thesis
      using Suc by (simp add: Let_def case_prod_beta c')
  qed
qed

lemma write_table_stream:
  "pos os = length (data os) \<Longrightarrow>
   snd (write_table fs c os) =
     \<lparr>data = data os @ concat (map (\<lambda>f. encode_entry (entry_of f)) (fst (write_table fs c os))),
      pos = length (data os) + 64 * length fs\<rparr>"
proof (induction fs arbitrary: c os)
  case Nil
  then show ?case by simp
next
  case (Cons f fs)
  let ?ent = "\<lparr>ent_name = strncpy (pak_path f) MAX_PAK_NAME_LEN,
                 ent_offset = word_of_nat c, ent_size = word_of_nat (f_size f)\<rparr>"
  have e: "?ent = entry_of (f\<lparr>f_offset := c\<rparr>)"
    by (simp add: entry_of_def)
  let ?os' = "ostream_write os (encode_entry ?ent)"
  have os': "?os' = \<lparr>data = data os @ encode_entry ?ent, pos = length (data os) + 64\<rparr>"
    using Cons.prems by (simp add: ostream_write_append e)
  then have p: "pos ?os' = length (data ?os')"
    by (simp add: e)
  show ?case
    using Cons.IH [OF p, of "size_t (c + f_size f)"]
    by (simp add: Let_def case_prod_beta os') (simp add: e)
qed

lemma map_store_exact:
  "n = length got \<Longrightarrow> map (store got buf) [0..<n] = got"
  by (auto simp: store_def intro: nth_equalityI)

lemma copy_loop_exact:
  "length ist = nat sz \<Longrightarrow> pos os = length (data os) \<Longrightarrow>
   copy_loop sz buf ist os = \<lparr>data = data os @ ist, pos = length (data os) + length ist\<rparr>"
proof (induction sz buf ist os rule: copy_loop.induct)
  case (1 sz buf ist os)
  show ?case
  proof (cases "sz > 0")
    case False
    with "1.prems" show ?thesis by (subst copy_loop.simps) simp
  next
    case True
    let ?got = "take sizeof_buf ist"
    have len: "chunk sz = length ?got"
      using True "1.prems"(1) by (auto simp: chunk_def sizeof_buf_def min_def)
    let ?os' = "ostream_write os (map (store ?got buf) [0..<chunk sz])"
    have os': "?os' = \<lparr>data = data os @ ?got, pos = length (data os) + length ?got\<rparr>"
      using "1.prems"(2) by (simp add: map_store_exact [OF len] ostream_write_append)
    have l: "length (drop sizeof_buf ist) = nat (sz - int sizeof_buf)"
      using "1.prems"(1) by simp
    have p: "pos ?os' = length (data ?os')"
      by (simp add: os')
    have "copy_loop (sz - int sizeof_buf) (store ?got buf) (drop sizeof_buf ist) ?os'
        = \<lparr>data = data ?os' @ drop sizeof_buf ist,
           pos = length (data ?os') + length (drop sizeof_buf ist)\<rparr>"
      using True by (intro "1.IH" [OF True refl refl l p])
    then show ?thesis
      using True by (subst copy_loop.simps) (simp add: Let_def os')
  qed
qed


lemma write_table_indep: "fst (write_table fs c os) = fst (write_table fs c os')"
proof (induction fs arbitrary: c os os')
  case Nil
  then show ?case by simp
next
  case (Cons f fs)
  let ?e = "encode_entry \<lparr>ent_name = strncpy (pak_path f) MAX_PAK_NAME_LEN,
      ent_offset = word_of_nat c, ent_size = word_of_nat (f_size f)\<rparr>"
  show ?case
    using Cons.IH [of "size_t (c + f_size f)" "ostream_write os ?e" "ostream_write os' ?e"]
    by (simp add: Let_def case_prod_beta)
qed

lemma write_table_fst: "fst (write_table fs c os) = assigned fs c"
  unfolding assigned_def by (rule write_table_indep)

lemma assigned_length [simp]: "length (assigned fs c) = length fs"
  by (simp add: assigned_def)

lemma assigned_fields:
  "map disk_path (assigned fs c) = map disk_path fs"
  "map pak_path (assigned fs c) = map pak_path fs"
  "map f_size (assigned fs c) = map f_size fs"
  using write_table_fields [of fs c "\<lparr>data = [], pos = 0\<rparr>"] by (simp_all add: assigned_def)

lemma assigned_offset:
  "i < length fs \<Longrightarrow> c + sum_list (map f_size fs) < 2 ^ 64 \<Longrightarrow>
   f_offset (assigned fs c ! i) = c + sum_list (map f_size (take i fs))"
  unfolding assigned_def by (rule write_table_offset)

lemma write_data_exact:
  assumes "\<forall>f\<in>set fs. \<exists>c. disk (disk_path f) = Some c \<and> length c = f_size f \<and> f_size f < 2 ^ 63"
    and "\<forall>i<length fs. f_offset (fs ! i) = length (data os) + sum_list (map f_size (take i fs))"
    and "pos os = length (data os)"
  shows "write_data disk buf fs os =
     (True, \<lparr>data = data os @ concat (map (\<lambda>f. the (disk (disk_path f))) fs),
             pos = length (data os) + sum_list (map f_size fs)\<rparr>)"
  using assms
proof (induction fs arbitrary: os)
  case Nil
  then show ?case by simp
next
  case (Cons f fs)
  from Cons.prems(1) obtain c where c: "disk (disk_path f) = Some c" "length c = f_size f"
    "f_size f < 2 ^ 63" by auto
  from Cons.prems(2) have off: "f_offset f = length (data os)"
    by fastforce
  let ?os' = "copy_loop (int64_t (f_size f)) buf c (seekp os (f_offset f))"
  have os': "?os' = \<lparr>data = data os @ c, pos = length (data os) + length c\<rparr>"
    using c off copy_loop_exact [of c "int (f_size f)" "seekp os (f_offset f)" buf]
    by (simp add: int64_t_id seekp_def)
  have 1: "\<forall>f\<in>set fs. \<exists>c. disk (disk_path f) = Some c \<and> length c = f_size f \<and> f_size f < 2 ^ 63"
    using Cons.prems(1) by simp
  have 2: "\<forall>i<length fs. f_offset (fs ! i) = length (data ?os') + sum_list (map f_size (take i fs))"
  proof (intro allI impI)
    fix i assume "i < length fs"
    then have "f_offset ((f # fs) ! Suc i)
        = length (data os) + sum_list (map f_size (take (Suc i) (f # fs)))"
      using Cons.prems(2) by (metis Suc_less_eq length_Cons)
    then show "f_offset (fs ! i) = length (data ?os') + sum_list (map f_size (take i fs))"
      by (simp add: os' c)
  qed
  have 3: "pos ?os' = length (data ?os')"
    by (simp add: os')
  show ?case
    using Cons.IH [OF 1 2 3] c by (simp add: os')
qed

lemma strncpy_PACK: "strncpy PACK 4 = PACK"
  by (simp add: strncpy_def c_str_def PACK_def)

lemma write_archive_pass1_gen:
  assumes "hsz = word_of_nat (size_t (length (b_files b) * 64))"
    and "fs' = assigned (b_files b) (size_t (12 + unat hsz))"
    and "os1 = \<lparr>data = PACK @ le32 12 @ le32 hsz
                  @ concat (map (\<lambda>f. encode_entry (entry_of f)) fs'),
               pos = 12 + 64 * length (b_files b)\<rparr>"
  shows "write_archive disk True buf b =
     (fst (write_data disk buf fs' os1), Some (data (snd (write_data disk buf fs' os1))),
      b\<lparr>b_files := fs'\<rparr>)"
proof -
  define hb where "hb = PACK @ le32 12 @ le32 hsz"
  define os0 where "os0 = \<lparr>data = hb, pos = 12\<rparr>"
  define cur where "cur = size_t (12 + unat hsz)"
  have hs: "word_of_nat (size_t (length (b_files b) * sizeof_pak_file_t)) = hsz"
    by (simp add: assms(1) sizeof_pak_file_t_def)
  have lhb: "length hb = 12" by (simp add: hb_def)
  have os0: "ostream_write \<lparr>data = [], pos = 0\<rparr>
      (encode_header \<lparr>hdr_id = strncpy PACK 4, hdr_offset = 12, hdr_size = hsz\<rparr>) = os0"
    by (simp add: ostream_write_def encode_header_def strncpy_PACK os0_def hb_def)
  have p0: "pos os0 = length (data os0)" by (simp add: os0_def lhb)
  have f: "fs' = assigned (b_files b) cur"
    by (simp add: assms(2) cur_def)
  have o: "os1 = \<lparr>data = hb @ concat (map (\<lambda>f. encode_entry (entry_of f)) fs'),
      pos = 12 + 64 * length (b_files b)\<rparr>"
    by (simp add: assms(3) hb_def)
  have t1: "fst (write_table (b_files b) cur os0) = fs'"
    unfolding f by (rule write_table_fst)
  have t2: "snd (write_table (b_files b) cur os0) = os1"
    by (subst write_table_stream [OF p0], subst t1) (simp add: o os0_def lhb)
  have wt: "write_table (b_files b) cur os0 = (fs', os1)"
    using t1 t2 by (metis prod.collapse)
  have c: "size_t (12 + unat hsz) = cur" by (simp add: cur_def)
  show ?thesis
    unfolding write_archive_def
    by (simp add: Let_def hs os0 sizeof_pak_header_t_def c wt case_prod_beta
        del: write_data.simps write_table.simps)
qed

lemma write_archive_pass1:
  assumes "length (b_files b) < 2 ^ 26"
    and "fs' = assigned (b_files b) (12 + 64 * length (b_files b))"
    and "os1 = \<lparr>data = PACK @ le32 12 @ le32 (word_of_nat (64 * length (b_files b)))
                  @ concat (map (\<lambda>f. encode_entry (entry_of f)) fs'),
               pos = 12 + 64 * length (b_files b)\<rparr>"
  shows "write_archive disk True buf b =
     (fst (write_data disk buf fs' os1), Some (data (snd (write_data disk buf fs' os1))),
      b\<lparr>b_files := fs'\<rparr>)"
proof -
  define n where "n = length (b_files b)"
  define hsz :: "32 word" where "hsz = word_of_nat (64 * n)"
  have n64: "n * 64 < 2 ^ 32" using assms(1) by (simp add: n_def)
  then have st: "size_t (n * 64) = n * 64"
    by (simp add: size_t_def)
  have un: "unat hsz = 64 * n"
    unfolding hsz_def using n64 by (subst unat_of_nat) simp
  have cur: "size_t (12 + unat hsz) = 12 + 64 * n"
    using n64 by (simp add: size_t_def un)
  have 1: "hsz = word_of_nat (size_t (length (b_files b) * 64))"
    using st by (simp add: hsz_def n_def mult.commute)
  have 2: "fs' = assigned (b_files b) (size_t (12 + unat hsz))"
    by (simp add: cur assms(2) n_def)
  have 3: "os1 = \<lparr>data = PACK @ le32 12 @ le32 hsz
                  @ concat (map (\<lambda>f. encode_entry (entry_of f)) fs'),
               pos = 12 + 64 * length (b_files b)\<rparr>"
    by (simp add: assms(3) hsz_def n_def)
  show ?thesis
    by (rule write_archive_pass1_gen [OF 1 2 3])
qed

lemma write_archive_exact:
  assumes "\<forall>f\<in>set (b_files b). \<exists>c. disk (disk_path f) = Some c \<and> length c = f_size f \<and> f_size f < 2 ^ 63"
    and "length (b_files b) < 2 ^ 26"
    and "12 + 64 * length (b_files b) + sum_list (map f_size (b_files b)) < 2 ^ 64"
  shows "write_archive disk True buf b =
     (True,
      Some (PACK @ le32 12 @ le32 (word_of_nat (64 * length (b_files b)))
            @ concat (map (\<lambda>f. encode_entry (entry_of f))
                (assigned (b_files b) (12 + 64 * length (b_files b))))
            @ concat (map (\<lambda>f. the (disk (disk_path f))) (b_files b))),
      b\<lparr>b_files := assigned (b_files b) (12 + 64 * length (b_files b))\<rparr>)"
proof -
  define n where "n = length (b_files b)"
  define fs' where "fs' = assigned (b_files b) (12 + 64 * length (b_files b))"
  define os1 where "os1 = \<lparr>data = PACK @ le32 12 @ le32 (word_of_nat (64 * length (b_files b)))
                  @ concat (map (\<lambda>f. encode_entry (entry_of f)) fs'),
               pos = 12 + 64 * length (b_files b)\<rparr>"
  have fields: "map disk_path fs' = map disk_path (b_files b)"
    "map f_size fs' = map f_size (b_files b)" "length fs' = n"
    by (simp_all add: fs'_def assigned_fields n_def)
  have len1: "length (data os1) = 12 + 64 * n"
    by (simp add: os1_def length_concat comp_def sum_list_triv fields(3))
  have src: "\<forall>f\<in>set fs'. \<exists>c. disk (disk_path f) = Some c \<and> length c = f_size f \<and> f_size f < 2 ^ 63"
  proof
    fix f assume "f \<in> set fs'"
    then obtain i where i: "i < n" "f = fs' ! i"
      by (metis in_set_conv_nth fields(3))
    then have "disk_path f = disk_path (b_files b ! i)" "f_size f = f_size (b_files b ! i)"
      using fields by (metis nth_map n_def)+
    moreover have "b_files b ! i \<in> set (b_files b)" using i(1) by (simp add: n_def)
    ultimately show "\<exists>c. disk (disk_path f) = Some c \<and> length c = f_size f \<and> f_size f < 2 ^ 63"
      using assms(1) by metis
  qed
  have offs: "\<forall>i<length fs'. f_offset (fs' ! i)
      = length (data os1) + sum_list (map f_size (take i fs'))"
  proof (intro allI impI)
    fix i assume "i < length fs'"
    then have i: "i < length (b_files b)" by (simp add: fields(3) n_def)
    have "f_offset (fs' ! i) = 12 + 64 * n + sum_list (map f_size (take i (b_files b)))"
      using assigned_offset [OF i, of "12 + 64 * n"] assms(3) by (simp add: fs'_def n_def)
    moreover have "map f_size (take i fs') = map f_size (take i (b_files b))"
      using fields(2) by (simp add: take_map [symmetric])
    ultimately show "f_offset (fs' ! i) = length (data os1) + sum_list (map f_size (take i fs'))"
      by (simp only: len1)
  qed
  have p1: "pos os1 = length (data os1)"
    unfolding len1 by (simp add: os1_def n_def)
  have contents: "map (\<lambda>f. the (disk (disk_path f))) fs' = map (\<lambda>f. the (disk (disk_path f))) (b_files b)"
  proof (rule nth_equalityI)
    show "length (map (\<lambda>f. the (disk (disk_path f))) fs') = length (map (\<lambda>f. the (disk (disk_path f))) (b_files b))"
      by (simp add: fields(3) n_def)
  next
    fix i assume "i < length (map (\<lambda>f. the (disk (disk_path f))) fs')"
    then have i: "i < n" by (simp add: fields(3))
    then have "disk_path (fs' ! i) = disk_path (b_files b ! i)"
      using fields(1,3) by (metis nth_map n_def)
    then show "map (\<lambda>f. the (disk (disk_path f))) fs' ! i = map (\<lambda>f. the (disk (disk_path f))) (b_files b) ! i"
      using i by (simp add: fields(3) n_def)
  qed
  have wd: "write_data disk buf fs' os1 =
     (True, \<lparr>data = data os1 @ concat (map (\<lambda>f. the (disk (disk_path f))) fs'),
             pos = length (data os1) + sum_list (map f_size fs')\<rparr>)"
    by (rule write_data_exact [OF src offs p1])
  have "write_archive disk True buf b =
     (True, Some (data os1 @ concat (map (\<lambda>f. the (disk (disk_path f))) fs')), b\<lparr>b_files := fs'\<rparr>)"
    by (simp add: write_archive_pass1 [OF assms(2) fs'_def os1_def] wd)
  then show ?thesis
    unfolding contents by (simp add: os1_def fs'_def)
qed

lemma ostream_write_prefix:
  assumes "k \<le> pos s" and "k \<le> length (data s)"
  shows "take k (data (ostream_write s bs)) = take k (data s)"
    and "k \<le> length (data (ostream_write s bs))"
    and "k \<le> pos (ostream_write s bs)"
  using assms by (simp_all add: ostream_write_def min_def)

lemma copy_loop_prefix:
  "k \<le> pos os \<Longrightarrow> k \<le> length (data os) \<Longrightarrow>
   take k (data (copy_loop sz buf ist os)) = take k (data os)
   \<and> k \<le> length (data (copy_loop sz buf ist os))"
proof (induction sz buf ist os rule: copy_loop.induct)
  case (1 sz buf ist os)
  show ?case
  proof (cases "sz > 0")
    case False
    with "1.prems" show ?thesis by (subst (1 2) copy_loop.simps) simp
  next
    case True
    let ?got = "take sizeof_buf ist"
    let ?os' = "ostream_write os (map (store ?got buf) [0..<chunk sz])"
    note w = ostream_write_prefix [OF "1.prems", of "map (store ?got buf) [0..<chunk sz]"]
    have "take k (data (copy_loop (sz - int sizeof_buf) (store ?got buf) (drop sizeof_buf ist) ?os'))
          = take k (data ?os')
        \<and> k \<le> length (data (copy_loop (sz - int sizeof_buf) (store ?got buf) (drop sizeof_buf ist) ?os'))"
      by (rule "1.IH" [OF True refl refl w(3) w(2)])
    then show ?thesis
      using True w(1) by (subst (1 2) copy_loop.simps) (simp add: Let_def)
  qed
qed

lemma write_data_prefix:
  "\<forall>f\<in>set fs. k \<le> f_offset f \<Longrightarrow> k \<le> length (data os) \<Longrightarrow>
   take k (data (snd (write_data disk buf fs os))) = take k (data os)"
proof (induction fs arbitrary: os)
  case Nil
  then show ?case by simp
next
  case (Cons f fs)
  show ?case
  proof (cases "disk (disk_path f)")
    case None
    then show ?thesis by simp
  next
    case (Some c)
    let ?os' = "copy_loop (int64_t (f_size f)) buf c (seekp os (f_offset f))"
    have k: "k \<le> pos (seekp os (f_offset f))" "k \<le> length (data (seekp os (f_offset f)))"
      using Cons.prems by (simp_all add: seekp_def)
    note cl = copy_loop_prefix [OF k, of "int64_t (f_size f)" buf c]
    have "take k (data (snd (write_data disk buf fs ?os'))) = take k (data ?os')"
      using Cons.prems(1) cl by (intro Cons.IH) simp_all
    then show ?thesis
      using Some cl by (simp add: seekp_def)
  qed
qed


section \<open>The pending files after \<open>write_archive\<close>\<close>

lemma write_archive_files:
  "b_files (snd (snd (write_archive disk sink_ok buf b)))
     = (if sink_ok then assigned (b_files b) (size_t (12 + unat (word_of_nat (size_t (length (b_files b) * 64)) :: 32 word)))
        else b_files b)"
  by (simp add: write_archive_def Let_def case_prod_beta write_table_fst sizeof_pak_header_t_def
      sizeof_pak_file_t_def)

lemma assigned_nth:
  assumes "i < length fs"
  shows "assigned fs c ! i = (fs ! i)\<lparr>f_offset := f_offset (assigned fs c ! i)\<rparr>"
proof -
  have "disk_path (assigned fs c ! i) = disk_path (fs ! i)"
    "pak_path (assigned fs c ! i) = pak_path (fs ! i)"
    "f_size (assigned fs c ! i) = f_size (fs ! i)"
    using assigned_fields [of fs c] assms assigned_length [of fs c] by (metis nth_map)+
  then show ?thesis
    by (cases "assigned fs c ! i"; cases "fs ! i") simp
qed

text \<open>
  Claim C9 says that a successful \<^verbatim>\<open>write\<close> consumes the pending files and
  leaves the list empty. Nothing in \<^verbatim>\<open>pak_builder\<close> removes an element of
  \<^verbatim>\<open>m_files\<close>. As amended: after a successful \<^verbatim>\<open>write\<close> the builder holds
  the same number of pending files, in the same order, each with its source path,
  archive name and size unchanged: a record differs from what it was at most in the
  data offset that \<^verbatim>\<open>write\<close> stored in it. A builder with pending files still
  has them afterwards.
\<close>

theorem write_keeps_pending_files:
  assumes "write_archive disk sink_ok buf b = (True, out, b')"
  shows "length (b_files b') = length (b_files b)
     \<and> map disk_path (b_files b') = map disk_path (b_files b)
     \<and> map pak_path (b_files b') = map pak_path (b_files b)
     \<and> map f_size (b_files b') = map f_size (b_files b)
     \<and> (\<forall>i<length (b_files b).
           b_files b' ! i = (b_files b ! i)\<lparr>f_offset := f_offset (b_files b' ! i)\<rparr>)
     \<and> (b_files b \<noteq> [] \<longrightarrow> b_files b' \<noteq> [])"
proof -
  have e: "b_files b' = b_files (snd (snd (write_archive disk sink_ok buf b)))"
    by (simp add: assms)
  then have l: "length (b_files b') = length (b_files b)"
    and "map disk_path (b_files b') = map disk_path (b_files b)"
    and "map pak_path (b_files b') = map pak_path (b_files b)"
    and "map f_size (b_files b') = map f_size (b_files b)"
    by (simp_all add: write_archive_files assigned_fields)
  moreover have "\<forall>i<length (b_files b).
           b_files b' ! i = (b_files b ! i)\<lparr>f_offset := f_offset (b_files b' ! i)\<rparr>"
    unfolding e write_archive_files using assigned_nth by (cases sink_ok) auto
  moreover from l have "b_files b \<noteq> [] \<longrightarrow> b_files b' \<noteq> []"
    by auto
  ultimately show ?thesis by simp
qed

lemma add_file_one_file:
  "add_file sample_disk ''x'' name_a pak_builder_init = (Returns True, one_file)"
  by (simp add: add_file_def sample_disk_def name_a_def MAX_PAK_NAME_LEN_def UINT32_MAX_def
      pak_builder_init_def one_file_def)

lemma write_one_file:
  "write_archive sample_disk True zero_buf one_file =
     (True, Some (PACK @ le32 12 @ le32 64 @ strncpy name_a 56 @ le32 76 @ le32 3 @ [1, 2, 3]),
      \<lparr>b_files = [\<lparr>disk_path = ''x'', pak_path = strncpy name_a MAX_PAK_NAME_LEN @ [0],
          f_offset = 76, f_size = 3\<rparr>]\<rparr>)"
proof -
  have 1: "\<forall>f\<in>set (b_files one_file). \<exists>c. sample_disk (disk_path f) = Some c
      \<and> length c = f_size f \<and> f_size f < 2 ^ 63"
    by (simp add: one_file_def sample_disk_def)
  have 2: "length (b_files one_file) < 2 ^ 26" by (simp add: one_file_def)
  have 3: "12 + 64 * length (b_files one_file) + sum_list (map f_size (b_files one_file)) < 2 ^ 64"
    by (simp add: one_file_def)
  have a: "assigned (b_files one_file) 76 = [\<lparr>disk_path = ''x'',
      pak_path = strncpy name_a MAX_PAK_NAME_LEN @ [0], f_offset = 76, f_size = 3\<rparr>]"
    by (simp add: one_file_def assigned_def Let_def)
  have l: "length (b_files one_file) = 1" by (simp add: one_file_def)
  have n: "strncpy (strncpy name_a MAX_PAK_NAME_LEN @ [0]) MAX_PAK_NAME_LEN = strncpy name_a 56"
    using strncpy_pak_path [of name_a 56] by (simp add: name_a_def MAX_PAK_NAME_LEN_def)
  show ?thesis
    unfolding write_archive_exact [OF 1 2 3] l
    by (simp add: a entry_of_def encode_entry_def n) (simp add: one_file_def sample_disk_def)
qed

text \<open>
  One file registered with \<open>add_file\<close> and written successfully: the pending-file
  list is not empty afterwards.
\<close>

theorem write_keeps_pending_files_counterexample:
  "fst (write_archive sample_disk True zero_buf
          (snd (add_file sample_disk ''x'' name_a pak_builder_init))) = True
   \<and> b_files (snd (snd (write_archive sample_disk True zero_buf
          (snd (add_file sample_disk ''x'' name_a pak_builder_init))))) \<noteq> []"
  by (simp add: add_file_one_file write_one_file)

theorem write_keeps_pending_files_witness:
  "length (b_files (snd (snd (write_archive sample_disk True zero_buf one_file)))) = 1
   \<and> map f_size (b_files (snd (snd (write_archive sample_disk True zero_buf one_file)))) = [3]"
  using write_keeps_pending_files [OF write_one_file]
  unfolding write_one_file by (simp add: one_file_def)


section \<open>The layout\<close>

lemma concat_nth_chunk:
  "\<forall>x\<in>set xs. length x = m \<Longrightarrow> i < length xs \<Longrightarrow>
   take m (drop (m * i) (concat xs)) = xs ! i"
proof (induction xs arbitrary: i)
  case Nil
  then show ?case by simp
next
  case (Cons x xs)
  show ?case
  proof (cases i)
    case 0
    with Cons.prems show ?thesis by simp
  next
    case (Suc j)
    with Cons.prems Cons.IH [of j] show ?thesis by simp
  qed
qed

lemma decode_encode_entry:
  "length (ent_name e) = 56 \<Longrightarrow> decode_entry (encode_entry e) = e"
  by (simp add: decode_entry_def encode_entry_def MAX_PAK_NAME_LEN_def)

lemma decode_entry_of [simp]: "decode_entry (encode_entry (entry_of f)) = entry_of f"
  by (rule decode_encode_entry) (simp add: entry_of_def MAX_PAK_NAME_LEN_def)

lemma table_nth:
  "i < length fs \<Longrightarrow>
   take 64 (drop (64 * i) (concat (map (\<lambda>f. encode_entry (entry_of f)) fs)))
     = encode_entry (entry_of (fs ! i))"
  using concat_nth_chunk [of "map (\<lambda>f. encode_entry (entry_of f)) fs" 64 i] by simp

lemma assigned_offset_ge:
  assumes "c + sum_list (map f_size fs) < 2 ^ 64"
  shows "\<forall>f\<in>set (assigned fs c). c \<le> f_offset f"
proof
  fix f assume "f \<in> set (assigned fs c)"
  then obtain i where "i < length fs" "f = assigned fs c ! i"
    by (metis in_set_conv_nth assigned_length)
  then show "c \<le> f_offset f"
    using assigned_offset [OF _ assms] by simp
qed

lemma write_archive_table:
  assumes "length (b_files b) < 2 ^ 26"
    and "12 + 64 * length (b_files b) + sum_list (map f_size (b_files b)) < 2 ^ 64"
    and "write_archive disk True buf b = (ok, Some out, b')"
  shows "b_files b' = assigned (b_files b) (12 + 64 * length (b_files b))"
    and "take (12 + 64 * length (b_files b)) out
       = PACK @ le32 12 @ le32 (word_of_nat (64 * length (b_files b)))
         @ concat (map (\<lambda>f. encode_entry (entry_of f)) (b_files b'))"
proof -
  define n where "n = length (b_files b)"
  define fs' where "fs' = assigned (b_files b) (12 + 64 * length (b_files b))"
  define os1 where "os1 = \<lparr>data = PACK @ le32 12 @ le32 (word_of_nat (64 * length (b_files b)))
                  @ concat (map (\<lambda>f. encode_entry (entry_of f)) fs'),
               pos = 12 + 64 * length (b_files b)\<rparr>"
  note p = write_archive_pass1 [OF assms(1) fs'_def os1_def, of disk buf]
  from p assms(3) show b': "b_files b' = assigned (b_files b) (12 + 64 * length (b_files b))"
    by (simp add: fs'_def)
  from p assms(3) have out: "out = data (snd (write_data disk buf fs' os1))"
    by simp
  have len1: "length (data os1) = 12 + 64 * n"
    by (simp add: os1_def length_concat comp_def sum_list_triv fs'_def n_def)
  have ge: "\<forall>f\<in>set fs'. 12 + 64 * n \<le> f_offset f"
    unfolding fs'_def n_def by (rule assigned_offset_ge) (use assms(2) in simp)
  have "take (12 + 64 * n) out = take (12 + 64 * n) (data os1)"
    unfolding out by (rule write_data_prefix [OF ge]) (simp add: len1)
  also have "\<dots> = data os1"
    by (simp add: len1)
  finally show "take (12 + 64 * length (b_files b)) out
       = PACK @ le32 12 @ le32 (word_of_nat (64 * length (b_files b)))
         @ concat (map (\<lambda>f. encode_entry (entry_of f)) (b_files b'))"
    by (simp add: os1_def n_def b' fs'_def)
qed

lemma concat_take_drop:
  "i < length xs \<Longrightarrow>
   take (length (xs ! i)) (drop (sum_list (map length (take i xs))) (concat xs)) = xs ! i"
proof (induction xs arbitrary: i)
  case Nil
  then show ?case by simp
next
  case (Cons x xs)
  show ?case
  proof (cases i)
    case 0
    then show ?thesis by simp
  next
    case (Suc j)
    with Cons.prems Cons.IH [of j] show ?thesis by simp
  qed
qed

lemma write_archive_data:
  assumes "\<forall>f\<in>set (b_files b). \<exists>c. disk (disk_path f) = Some c \<and> length c = f_size f \<and> f_size f < 2 ^ 63"
    and "length (b_files b) < 2 ^ 26"
    and "12 + 64 * length (b_files b) + sum_list (map f_size (b_files b)) < 2 ^ 64"
    and "write_archive disk True buf b = (ok, Some out, b')"
  shows "ok"
    and "length out = 12 + 64 * length (b_files b) + sum_list (map f_size (b_files b))"
    and "\<forall>i<length (b_files b).
          take (f_size (b_files b ! i))
            (drop (12 + 64 * length (b_files b) + sum_list (map f_size (take i (b_files b)))) out)
          = the (disk (disk_path (b_files b ! i)))"
proof -
  define n where "n = length (b_files b)"
  define cs where "cs = map (\<lambda>f. the (disk (disk_path f))) (b_files b)"
  define front where "front = PACK @ le32 12 @ le32 (word_of_nat (64 * length (b_files b)))
            @ concat (map (\<lambda>f. encode_entry (entry_of f))
                (assigned (b_files b) (12 + 64 * length (b_files b))))"
  from write_archive_exact [OF assms(1-3), of buf] assms(4)
  show "ok" by simp
  from write_archive_exact [OF assms(1-3), of buf] assms(4)
  have out: "out = front @ concat cs"
    by (simp add: front_def cs_def)
  have lf: "length front = 12 + 64 * n"
    by (simp add: front_def length_concat comp_def sum_list_triv n_def)
  have lens: "map length cs = map f_size (b_files b)"
    unfolding cs_def using assms(1) by (auto simp: comp_def)
  have "length (concat cs) = sum_list (map f_size (b_files b))"
    by (simp add: length_concat lens)
  then show "length out = 12 + 64 * length (b_files b) + sum_list (map f_size (b_files b))"
    by (simp add: out lf n_def)
  show "\<forall>i<length (b_files b).
          take (f_size (b_files b ! i))
            (drop (12 + 64 * length (b_files b) + sum_list (map f_size (take i (b_files b)))) out)
          = the (disk (disk_path (b_files b ! i)))"
  proof (intro allI impI)
    fix i assume i: "i < length (b_files b)"
    then have ic: "i < length cs" by (simp add: cs_def)
    have "length (cs ! i) = map length cs ! i"
      using ic by simp
    then have li: "length (cs ! i) = f_size (b_files b ! i)"
      using i by (simp add: lens)
    have "map length (take i cs) = take i (map length cs)"
      by (simp add: take_map)
    then have pre: "sum_list (map length (take i cs)) = sum_list (map f_size (take i (b_files b)))"
      by (simp add: lens take_map)
    have "drop (12 + 64 * n + sum_list (map f_size (take i (b_files b)))) out
        = drop (sum_list (map f_size (take i (b_files b)))) (concat cs)"
      by (simp add: out lf)
    then have "take (f_size (b_files b ! i))
            (drop (12 + 64 * n + sum_list (map f_size (take i (b_files b)))) out)
        = cs ! i"
      using concat_take_drop [OF ic] by (simp add: li pre)
    then show "take (f_size (b_files b ! i))
            (drop (12 + 64 * length (b_files b) + sum_list (map f_size (take i (b_files b)))) out)
          = the (disk (disk_path (b_files b ! i)))"
      using i by (simp add: n_def cs_def)
  qed
qed

text \<open>
  Claim C7 says that for every list of \<open>n\<close> pending files the header carries table
  offset 12 and table size \<open>64 * n\<close>, and file \<open>i\<close> gets the data offset
  \<open>12 + 64 * n\<close> plus the sizes before it. The header's table size and an entry's
  offset are \<^verbatim>\<open>uint32_t\<close>. As amended: for fewer than \<open>2 ^ 26\<close> pending files
  (and a total below \<open>2 ^ 64\<close> bytes) the archive that \<^verbatim>\<open>write\<close> leaves begins with
  the magic tag, table offset 12 and table size \<open>64 * n\<close>; the offset stored in pending
  file \<open>i\<close> is \<open>12 + 64 * n\<close> plus the sizes before it; entry \<open>i\<close> of the table
  carries the file's name field, that offset reduced modulo \<open>2 ^ 32\<close> and the file's
  size; when every source holds as many bytes as were registered for it (fewer than
  \<open>2 ^ 63\<close>), \<^verbatim>\<open>write\<close> returns true, the archive has \<open>12 + 64 * n\<close> bytes plus
  the sizes, and the bytes of file \<open>i\<close> lie in it at the file's offset; and a second
  write of the same list, whatever the sources hold then, assigns the same offsets and
  produces the same header and table.
\<close>

theorem write_layout:
  assumes "length (b_files b) < 2 ^ 26"
    and "12 + 64 * length (b_files b) + sum_list (map f_size (b_files b)) < 2 ^ 64"
    and "write_archive disk True buf b = (ok, Some out, b')"
    and "sizes = map f_size (b_files b)"
  shows "decode_header (take 12 out)
       = \<lparr>hdr_id = PACK, hdr_offset = 12, hdr_size = word_of_nat (64 * length sizes)\<rparr>
     \<and> unat (word_of_nat (64 * length sizes) :: 32 word) = 64 * length sizes
     \<and> length (b_files b') = length sizes
     \<and> (\<forall>i<length sizes.
           f_offset (b_files b' ! i) = spec_offset sizes i
           \<and> decode_entry (take 64 (drop (12 + 64 * i) out))
               = \<lparr>ent_name = strncpy (pak_path (b_files b ! i)) MAX_PAK_NAME_LEN,
                  ent_offset = word_of_nat (spec_offset sizes i),
                  ent_size = word_of_nat (sizes ! i)\<rparr>)
     \<and> ((\<forall>f\<in>set (b_files b). \<exists>c. disk (disk_path f) = Some c \<and> length c = f_size f
              \<and> f_size f < 2 ^ 63) \<longrightarrow>
           ok \<and> length out = 12 + 64 * length sizes + sum_list sizes
           \<and> (\<forall>i<length sizes. take (sizes ! i) (drop (spec_offset sizes i) out)
                  = the (disk (disk_path (b_files b ! i)))))
     \<and> (write_archive disk' True buf' b = (ok', Some out', b'') \<longrightarrow>
           b_files b'' = b_files b'
           \<and> take (12 + 64 * length sizes) out' = take (12 + 64 * length sizes) out)"
proof -
  define n where "n = length (b_files b)"
  have ln: "length sizes = n" by (simp add: assms(4) n_def)
  note t = write_archive_table [OF assms(1-3)]
  define tbl where "tbl = concat (map (\<lambda>f. encode_entry (entry_of f)) (b_files b'))"
  have pre: "take (12 + 64 * n) out = PACK @ le32 12 @ le32 (word_of_nat (64 * n)) @ tbl"
    using t(2) by (simp add: n_def tbl_def)
  have lb': "length (b_files b') = n"
    by (simp add: t(1) n_def)
  have "take 12 out = take 12 (take (12 + 64 * n) out)"
    by (simp add: min_def)
  then have h: "take 12 out = PACK @ le32 12 @ le32 (word_of_nat (64 * n))"
    unfolding pre by simp
  have 1: "decode_header (take 12 out)
       = \<lparr>hdr_id = PACK, hdr_offset = 12, hdr_size = word_of_nat (64 * n)\<rparr>"
    unfolding h by (simp add: decode_header_def)
  have "64 * n < 2 ^ 32" using assms(1) by (simp add: n_def)
  then have 2: "unat (word_of_nat (64 * n) :: 32 word) = 64 * n"
    by (subst unat_of_nat) simp
  have 4: "\<forall>i<n. f_offset (b_files b' ! i) = spec_offset sizes i
           \<and> decode_entry (take 64 (drop (12 + 64 * i) out))
               = \<lparr>ent_name = strncpy (pak_path (b_files b ! i)) MAX_PAK_NAME_LEN,
                  ent_offset = word_of_nat (spec_offset sizes i),
                  ent_size = word_of_nat (sizes ! i)\<rparr>"
  proof (intro allI impI)
    fix i assume i: "i < n"
    then have i': "i < length (b_files b)" by (simp add: n_def)
    have off: "f_offset (b_files b' ! i) = spec_offset sizes i"
      using assigned_offset [OF i', of "12 + 64 * length (b_files b)"] assms(2)
      by (simp add: t(1) spec_offset_def assms(4) take_map)
    have "pak_path (b_files b' ! i) = pak_path (b_files b ! i)"
      "f_size (b_files b' ! i) = f_size (b_files b ! i)"
      using assigned_fields(2,3) [of "b_files b" "12 + 64 * length (b_files b)"] i' lb'
      unfolding t(1) [symmetric] by (metis nth_map n_def)+
    then have e: "entry_of (b_files b' ! i)
        = \<lparr>ent_name = strncpy (pak_path (b_files b ! i)) MAX_PAK_NAME_LEN,
            ent_offset = word_of_nat (spec_offset sizes i),
            ent_size = word_of_nat (sizes ! i)\<rparr>"
      using i' by (simp add: entry_of_def off assms(4))
    have "64 * i + 64 \<le> 64 * n" using i by simp
    then have "take 64 (drop (12 + 64 * i) out)
        = take 64 (drop (12 + 64 * i) (take (12 + 64 * n) out))"
      by (simp add: drop_take min_def)
    also have "\<dots> = take 64 (drop (64 * i) tbl)"
      unfolding pre by simp
    also have "\<dots> = encode_entry (entry_of (b_files b' ! i))"
      unfolding tbl_def using i lb' by (simp add: table_nth)
    finally have "decode_entry (take 64 (drop (12 + 64 * i) out)) = entry_of (b_files b' ! i)"
      by simp
    with off e show "f_offset (b_files b' ! i) = spec_offset sizes i
           \<and> decode_entry (take 64 (drop (12 + 64 * i) out))
               = \<lparr>ent_name = strncpy (pak_path (b_files b ! i)) MAX_PAK_NAME_LEN,
                  ent_offset = word_of_nat (spec_offset sizes i),
                  ent_size = word_of_nat (sizes ! i)\<rparr>"
      by simp
  qed
  have 5: "write_archive disk' True buf' b = (ok', Some out', b'') \<longrightarrow>
           b_files b'' = b_files b' \<and> take (12 + 64 * n) out' = take (12 + 64 * n) out"
  proof
    assume w: "write_archive disk' True buf' b = (ok', Some out', b'')"
    note t' = write_archive_table [OF assms(1,2) w]
    show "b_files b'' = b_files b' \<and> take (12 + 64 * n) out' = take (12 + 64 * n) out"
      using t t' by (simp add: n_def)
  qed
  have 6: "(\<forall>f\<in>set (b_files b). \<exists>c. disk (disk_path f) = Some c \<and> length c = f_size f
              \<and> f_size f < 2 ^ 63) \<longrightarrow>
           ok \<and> length out = 12 + 64 * n + sum_list sizes
           \<and> (\<forall>i<n. take (sizes ! i) (drop (spec_offset sizes i) out)
                  = the (disk (disk_path (b_files b ! i))))"
  proof
    assume src: "\<forall>f\<in>set (b_files b). \<exists>c. disk (disk_path f) = Some c \<and> length c = f_size f
              \<and> f_size f < 2 ^ 63"
    note w = write_archive_data [OF src assms(1-3)]
    have "\<forall>i<n. take (sizes ! i) (drop (spec_offset sizes i) out)
                  = the (disk (disk_path (b_files b ! i)))"
      using w(3) by (simp add: n_def assms(4) spec_offset_def take_map)
    with w(1,2) show "ok \<and> length out = 12 + 64 * n + sum_list sizes
           \<and> (\<forall>i<n. take (sizes ! i) (drop (spec_offset sizes i) out)
                  = the (disk (disk_path (b_files b ! i))))"
      by (simp add: n_def assms(4))
  qed
  from 1 2 lb' 4 5 6 show ?thesis
    unfolding ln by blast
qed


lemma copy_loop_0: "copy_loop 0 buf ist os = os"
  by (subst copy_loop.simps) simp

lemma write_data_empty:
  "\<forall>f\<in>set fs. f_size f = 0 \<and> disk (disk_path f) \<noteq> None \<Longrightarrow>
   fst (write_data disk buf fs os) = True \<and> data (snd (write_data disk buf fs os)) = data os"
proof (induction fs arbitrary: os)
  case Nil
  then show ?case by simp
next
  case (Cons f fs)
  then obtain c where c: "disk (disk_path f) = Some c" by auto
  have z: "int64_t 0 = 0" by (simp add: int64_t_def size_t_def)
  show ?case
    using Cons.IH [of "seekp os (f_offset f)"] Cons.prems
    by (simp add: c z copy_loop_0 seekp_def)
qed

lemma add_all_two_files:
  "add_all sample_disk [(''x'', name_a), (''y'', name_b)] pak_builder_init = (Returns (), two_files)"
  by (simp add: add_file_def sample_disk_def name_a_def name_b_def MAX_PAK_NAME_LEN_def
      UINT32_MAX_def pak_builder_init_def two_files_def)

lemma write_two_files:
  "write_archive sample_disk True zero_buf two_files =
     (True, Some two_file_pak,
      \<lparr>b_files =
     [\<lparr>disk_path = ''x'', pak_path = strncpy name_a MAX_PAK_NAME_LEN @ [0], f_offset = 140, f_size = 3\<rparr>,
      \<lparr>disk_path = ''y'', pak_path = strncpy name_b MAX_PAK_NAME_LEN @ [0], f_offset = 143, f_size = 1\<rparr>]\<rparr>)"
proof -
  have 1: "\<forall>f\<in>set (b_files two_files). \<exists>c. sample_disk (disk_path f) = Some c
      \<and> length c = f_size f \<and> f_size f < 2 ^ 63"
    by (simp add: two_files_def sample_disk_def)
  have 2: "length (b_files two_files) < 2 ^ 26" by (simp add: two_files_def)
  have 3: "12 + 64 * length (b_files two_files) + sum_list (map f_size (b_files two_files)) < 2 ^ 64"
    by (simp add: two_files_def)
  have a: "assigned (b_files two_files) 140 =
     [\<lparr>disk_path = ''x'', pak_path = strncpy name_a MAX_PAK_NAME_LEN @ [0], f_offset = 140, f_size = 3\<rparr>,
      \<lparr>disk_path = ''y'', pak_path = strncpy name_b MAX_PAK_NAME_LEN @ [0], f_offset = 143, f_size = 1\<rparr>]"
    by (simp add: two_files_def assigned_def Let_def size_t_def)
  have l: "length (b_files two_files) = 2" by (simp add: two_files_def)
  have n: "strncpy (strncpy name_a MAX_PAK_NAME_LEN @ [0]) MAX_PAK_NAME_LEN = strncpy name_a 56"
    "strncpy (strncpy name_b MAX_PAK_NAME_LEN @ [0]) MAX_PAK_NAME_LEN = strncpy name_b 56"
    using strncpy_pak_path [of name_a 56] strncpy_pak_path [of name_b 56]
    by (simp_all add: name_a_def name_b_def MAX_PAK_NAME_LEN_def)
  show ?thesis
    unfolding write_archive_exact [OF 1 2 3] l
    by (simp add: a entry_of_def encode_entry_def n two_file_pak_def)
      (simp add: two_files_def sample_disk_def)
qed

theorem write_layout_witness:
  "decode_header (take 12 two_file_pak) = \<lparr>hdr_id = PACK, hdr_offset = 12, hdr_size = 128\<rparr>
   \<and> map f_offset (b_files (snd (snd (write_archive sample_disk True zero_buf two_files)))) = [140, 143]
   \<and> spec_offset [3, 1] 0 = 140 \<and> spec_offset [3, 1] 1 = 143
   \<and> ent_offset (decode_entry (take 64 (drop (12 + 64 * 1) two_file_pak))) = 143
   \<and> length two_file_pak = 144
   \<and> take 3 (drop 140 two_file_pak) = [1, 2, 3]
   \<and> take 1 (drop 143 two_file_pak) = [9]"
proof -
  have 1: "length (b_files two_files) < 2 ^ 26" by (simp add: two_files_def)
  have 2: "12 + 64 * length (b_files two_files) + sum_list (map f_size (b_files two_files)) < 2 ^ 64"
    by (simp add: two_files_def)
  have 3: "[3, 1] = map f_size (b_files two_files)" by (simp add: two_files_def)
  have s: "spec_offset [3, 1] 0 = 140" "spec_offset [3, 1] 1 = 143"
    by (simp_all add: spec_offset_def)
  have src: "\<forall>f\<in>set (b_files two_files). \<exists>c. sample_disk (disk_path f) = Some c
      \<and> length c = f_size f \<and> f_size f < 2 ^ 63"
    by (simp add: two_files_def sample_disk_def)
  have c: "the (sample_disk (disk_path (b_files two_files ! 0))) = [1, 2, 3]"
    "the (sample_disk (disk_path (b_files two_files ! Suc 0))) = [9]"
    by (simp_all add: two_files_def sample_disk_def)
  show ?thesis
    using s src write_layout [OF 1 2 write_two_files 3, where disk' = sample_disk
        and buf' = zero_buf and ok' = True and out' = two_file_pak
        and b'' = "snd (snd (write_archive sample_disk True zero_buf two_files))"]
    unfolding write_two_files by (simp add: All_less_Suc c)
qed


section \<open>Extraction, and opening what the builder wrote\<close>

lemma extract_loop_exact:
  "pos s + nat sz \<le> length (data s) \<Longrightarrow>
   extract_loop sz buf s out =
     (s\<lparr>pos := pos s + nat sz\<rparr>, out @ take (nat sz) (drop (pos s) (data s)))"
proof (induction sz buf s out rule: extract_loop.induct)
  case (1 sz buf s out)
  show ?case
  proof (cases "sz > 0")
    case False
    then show ?thesis by (subst extract_loop.simps) simp
  next
    case True
    define c where "c = chunk sz"
    define got where "got = fread_bytes s c"
    define s' where "s' = fread_advance s c"
    define r where "r = nat (sz - int sizeof_buf)"
    have c: "c = min 8192 (nat sz)"
      using True by (auto simp: c_def chunk_def sizeof_buf_def min_def)
    have got: "got = take c (drop (pos s) (data s))"
      by (simp add: got_def fread_bytes_def)
    have "c \<le> length (data s) - pos s"
      using "1.prems" c by linarith
    then have len: "c = length got"
      by (simp add: got min_def)
    have s': "s' = s\<lparr>pos := pos s + c\<rparr>"
      using len by (simp add: s'_def fread_advance_def got_def)
    have r: "r = nat sz - c"
      using True c by (auto simp: r_def sizeof_buf_def min_def)
    have cr: "c + r = nat sz"
      using r c by linarith
    have le: "pos s' + r \<le> length (data s')"
      using "1.prems" cr by (simp add: s')
    have step: "extract_loop (sz - int sizeof_buf) (store got buf) s' (out @ map (store got buf) [0..<c])
        = (s'\<lparr>pos := pos s' + r\<rparr>,
           (out @ map (store got buf) [0..<c]) @ take r (drop (pos s') (data s')))"
      unfolding r_def s'_def got_def c_def
      by (rule "1.IH" [OF True refl refl le [unfolded r_def s'_def c_def]])
    have m: "map (store got buf) [0..<c] = got"
      by (rule map_store_exact [OF len])
    have tk: "take c (drop (pos s) (data s)) @ take r (drop (pos s + c) (data s))
        = take (nat sz) (drop (pos s) (data s))"
      using take_add [of c r "drop (pos s) (data s)"] by (simp add: cr add.commute)
    have fin: "(s'\<lparr>pos := pos s' + r\<rparr>,
           (out @ map (store got buf) [0..<c]) @ take r (drop (pos s') (data s')))
        = (s\<lparr>pos := pos s + nat sz\<rparr>, out @ take (nat sz) (drop (pos s) (data s)))"
      unfolding m using tk cr by (simp add: got s' add.assoc)
    have "extract_loop (sz - int sizeof_buf) (store got buf) s' (out @ map (store got buf) [0..<c])
        = (s\<lparr>pos := pos s + nat sz\<rparr>, out @ take (nat sz) (drop (pos s) (data s)))"
      using step fin by (rule trans)
    then show ?thesis
      using True by (subst extract_loop.simps) (simp add: Let_def c_def got_def s'_def)
  qed
qed

lemma extract_file_exact:
  assumes "m_lookupMap a nm = Some i" and "i < length (m_files a)" and "m_file a = Opened s"
    and "unat (ent_offset (m_files a ! i)) + unat (ent_size (m_files a ! i)) \<le> length (data s)"
  shows "extract_file nm True buf a =
     (Returns True,
      Some (take (unat (ent_size (m_files a ! i))) (drop (unat (ent_offset (m_files a ! i))) (data s))),
      a\<lparr>m_file := Opened (s\<lparr>pos := unat (ent_offset (m_files a ! i))
                                   + unat (ent_size (m_files a ! i))\<rparr>)\<rparr>)"
proof -
  let ?e = "m_files a ! i"
  have "pos (fseek_set s (unat (ent_offset ?e))) + nat (uint (ent_size ?e))
      \<le> length (data (fseek_set s (unat (ent_offset ?e))))"
    using assms(4) by (simp add: fseek_set_def)
  from extract_loop_exact [OF this, of buf "[]"] show ?thesis
    using assms(1-3) by (simp add: extract_file_def Let_def fseek_set_def)
qed

lemma open_built_archive:
  assumes "m_file a0 \<noteq> Stale" and "fs \<noteq> []" and "length fs < 2 ^ 26"
    and "arch = PACK @ le32 12 @ le32 (word_of_nat (64 * length fs))
          @ concat (map (\<lambda>f. encode_entry (entry_of f)) fs) @ rest"
  shows "open_archive (Some arch) a0 =
     (Returns True, \<lparr>m_file = Opened \<lparr>data = arch, pos = 12 + 64 * length fs\<rparr>,
        m_fileSize = length arch, m_files = map entry_of fs, m_errno = NoError,
        m_lookupMap = populate (map entry_of fs) 0 Map.empty\<rparr>)"
proof -
  define n where "n = length fs"
  define tbl where "tbl = concat (map (\<lambda>f. encode_entry (entry_of f)) fs)"
  define hsz :: "32 word" where "hsz = word_of_nat (64 * n)"
  have "64 * n < 2 ^ 32" using assms(3) by (simp add: n_def)
  then have un: "unat hsz = 64 * n"
    unfolding hsz_def by (subst unat_of_nat) simp
  have n0: "n \<noteq> 0" using assms(2) by (simp add: n_def)
  have lt: "length tbl = 64 * n"
    by (simp add: tbl_def length_concat comp_def sum_list_triv n_def)
  have a: "arch = PACK @ le32 12 @ le32 hsz @ (tbl @ rest)"
    by (simp add: assms(4) tbl_def hsz_def n_def)
  have got: "take (unat hsz) (drop (unat (12 :: 32 word)) arch) = tbl"
    by (simp add: a un lt)
  have dt: "decode_table n tbl = map entry_of fs"
  proof (rule nth_equalityI)
    show "length (decode_table n tbl) = length (map entry_of fs)"
      by (simp add: n_def)
  next
    fix i assume "i < length (decode_table n tbl)"
    then have i: "i < length fs" by (simp add: n_def)
    then show "decode_table n tbl ! i = map entry_of fs ! i"
      by (simp add: decode_table_nth n_def tbl_def table_nth)
  qed
  have "open_archive (Some (PACK @ le32 12 @ le32 hsz @ (tbl @ rest))) a0 =
     (Returns True, \<lparr>m_file = Opened \<lparr>data = arch, pos = 12 + 64 * n\<rparr>,
        m_fileSize = length arch, m_files = map entry_of fs, m_errno = NoError,
        m_lookupMap = populate (map entry_of fs) 0 Map.empty\<rparr>)"
    apply (subst open_archive_PACK [OF assms(1)])
    unfolding Let_def a [symmetric] got
    using n0 by (simp add: un lt dt)
  then show ?thesis
    by (simp add: a n_def)
qed


section \<open>Looking a name up\<close>

lemma read_file_found:
  assumes "m_lookupMap a nm = Some i" and "i < length (m_files a)" and "m_file a = Opened s"
  shows "fst (read_file nm n a)
      = Returns (n \<noteq> 0 \<and> unat (ent_offset (m_files a ! i)) + n \<le> length (data s))"
    and "fst (snd (read_file nm n a)) = take n (drop (unat (ent_offset (m_files a ! i))) (data s))"
proof -
  let ?off = "unat (ent_offset (m_files a ! i))"
  have "n \<noteq> 0 \<Longrightarrow> (min (length (data s) - ?off) n = n) = (?off + n \<le> length (data s))"
    by (auto simp: min_def)
  then show "fst (read_file nm n a) = Returns (n \<noteq> 0 \<and> ?off + n \<le> length (data s))"
    using assms
    by (auto simp: read_file_def Let_def fseek_set_def fread_bytes_def)
  show "fst (snd (read_file nm n a)) = take n (drop ?off (data s))"
    using assms
    by (simp add: read_file_def Let_def fseek_set_def fread_bytes_def)
qed

lemma extract_file_found:
  assumes "m_lookupMap a nm = Some i" and "i < length (m_files a)" and "m_file a = Opened s"
  shows "fst (extract_file nm True buf a) = Returns True"
  using assms by (simp add: extract_file_def Let_def split_def)

lemma dup_extract:
  "fst (snd (extract_file name_a True zero_buf dup_state)) = Some [1, 2, 3]"
proof -
  have 1: "m_lookupMap dup_state name_a = Some 0" by (simp add: dup_state_def)
  have 2: "0 < length (m_files dup_state)" by (simp add: dup_state_def)
  have 3: "m_file dup_state = Opened \<lparr>data = dup_pak, pos = 140\<rparr>" by (simp add: dup_state_def)
  have 4: "unat (ent_offset (m_files dup_state ! 0)) + unat (ent_size (m_files dup_state ! 0))
      \<le> length (data \<lparr>data = dup_pak, pos = 140\<rparr>)"
    by (simp add: dup_state_def dup_pak_def)
  show ?thesis
    unfolding extract_file_exact [OF 1 2 3 4]
    by (simp add: dup_state_def) (simp add: dup_pak_def)
qed

lemma dup_read:
  "fst (snd (read_file name_a 1 dup_state)) = [1]"
proof -
  have 1: "m_lookupMap dup_state name_a = Some 0" by (simp add: dup_state_def)
  have 2: "0 < length (m_files dup_state)" by (simp add: dup_state_def)
  have 3: "m_file dup_state = Opened \<lparr>data = dup_pak, pos = 140\<rparr>" by (simp add: dup_state_def)
  show ?thesis
    unfolding read_file_found(2) [OF 1 2 3]
    by (simp add: dup_state_def) (simp add: dup_pak_def)
qed

text \<open>
  Claim C3 says that of several entries with one name the lookup index keeps the last.
  \<^verbatim>\<open>std::unordered_map::insert\<close> does not replace an existing key, so the index
  keeps the first. As amended: after a successful \<^verbatim>\<open>open\<close> the entry vector holds
  every record of the table, in table order, and the enumeration lists them in that
  order; a name is in the lookup index exactly when some entry decodes to it, and it
  is mapped to the earliest such entry. That entry is the one the lookups by name use:
  \<^verbatim>\<open>stat\<close> reports its size and offset, \<^verbatim>\<open>read_file\<close> reads from its offset,
  and \<^verbatim>\<open>extract_file\<close> returns true and, when the entry lies within the archive,
  writes the bytes at its offset, as many as its size.
\<close>

theorem open_lookup_first_entry:
  assumes "open_archive (Some bytes) a0 = (Returns True, a)"
    and "hdr = decode_header (take 12 bytes)"
  shows "length (m_files a) = unat (hdr_size hdr) div 64
     \<and> (\<forall>i<length (m_files a). m_files a ! i
            = decode_entry (take 64 (drop (unat (hdr_offset hdr) + 64 * i) bytes)))
     \<and> enumerate_archive a
         = map (\<lambda>e. (decode_name (ent_name e), \<lparr>det_offset = ent_offset e, det_size = ent_size e\<rparr>))
             (m_files a)
     \<and> (m_lookupMap a nm = Some i \<longleftrightarrow>
           i < length (m_files a) \<and> decode_name (ent_name (m_files a ! i)) = nm
           \<and> (\<forall>j<i. decode_name (ent_name (m_files a ! j)) \<noteq> nm))
     \<and> (m_lookupMap a nm = Some i \<longrightarrow>
           stat nm a = (Returns True,
             Some (unat (ent_size (m_files a ! i)), unat (ent_offset (m_files a ! i))))
           \<and> fst (read_file nm n a)
               = Returns (n \<noteq> 0 \<and> unat (ent_offset (m_files a ! i)) + n \<le> length bytes)
           \<and> fst (snd (read_file nm n a))
               = take n (drop (unat (ent_offset (m_files a ! i))) bytes)
           \<and> fst (extract_file nm True buf a) = Returns True
           \<and> (unat (ent_offset (m_files a ! i)) + unat (ent_size (m_files a ! i)) \<le> length bytes
                \<longrightarrow> fst (snd (extract_file nm True buf a))
                  = Some (take (unat (ent_size (m_files a ! i)))
                            (drop (unat (ent_offset (m_files a ! i))) bytes))))"
proof -
  note d = open_archive_TrueD [OF assms]
  let ?sz = "unat (hdr_size hdr)" and ?off = "unat (hdr_offset hdr)"
  have files: "m_files a = decode_table (?sz div 64) (take ?sz (drop ?off bytes))"
    and look: "m_lookupMap a = populate (m_files a) 0 Map.empty"
    and fl: "m_file a = Opened \<lparr>data = bytes, pos = ?off + ?sz\<rparr>"
    by (simp_all add: d(3))
  have 1: "length (m_files a) = ?sz div 64"
    by (simp add: files)
  have 2: "\<forall>i<length (m_files a). m_files a ! i
            = decode_entry (take 64 (drop (?off + 64 * i) bytes))"
  proof (intro allI impI)
    fix i assume "i < length (m_files a)"
    then have i: "i < ?sz div 64" by (simp add: 1)
    then have "64 * i + 64 \<le> ?sz" using d(1) by linarith
    then have "take 64 (drop (64 * i) (take ?sz (drop ?off bytes)))
        = take 64 (drop (?off + 64 * i) bytes)"
      by (simp add: drop_take min_def add.commute)
    then show "m_files a ! i = decode_entry (take 64 (drop (?off + 64 * i) bytes))"
      using i by (simp add: files decode_table_nth)
  qed
  have 3: "enumerate_archive a
         = map (\<lambda>e. (decode_name (ent_name e), \<lparr>det_offset = ent_offset e, det_size = ent_size e\<rparr>))
             (m_files a)"
    by (rule nth_equalityI)
      (simp_all add: enumerate_archive_def iter_begin_def iter_end_def iter_deref_def Let_def)
  have 4: "m_lookupMap a nm = Some i \<longleftrightarrow>
           i < length (m_files a) \<and> decode_name (ent_name (m_files a ! i)) = nm
           \<and> (\<forall>j<i. decode_name (ent_name (m_files a ! j)) \<noteq> nm)"
    unfolding look by (rule populate_empty_iff)
  have 5: "stat nm a = (Returns True,
             Some (unat (ent_size (m_files a ! i)), unat (ent_offset (m_files a ! i))))"
    and 6: "fst (read_file nm n a)
               = Returns (n \<noteq> 0 \<and> unat (ent_offset (m_files a ! i)) + n \<le> length bytes)"
    and 7: "fst (snd (read_file nm n a))
               = take n (drop (unat (ent_offset (m_files a ! i))) bytes)"
    and 8: "fst (extract_file nm True buf a) = Returns True"
    and 9: "unat (ent_offset (m_files a ! i)) + unat (ent_size (m_files a ! i)) \<le> length bytes
                \<longrightarrow> fst (snd (extract_file nm True buf a))
                  = Some (take (unat (ent_size (m_files a ! i)))
                            (drop (unat (ent_offset (m_files a ! i))) bytes))"
    if l: "m_lookupMap a nm = Some i"
  proof -
    from l 4 have i: "i < length (m_files a)" by simp
    from l i show "stat nm a = (Returns True,
             Some (unat (ent_size (m_files a ! i)), unat (ent_offset (m_files a ! i))))"
      by (simp add: stat_def)
    from read_file_found [OF l i fl]
    show "fst (read_file nm n a)
               = Returns (n \<noteq> 0 \<and> unat (ent_offset (m_files a ! i)) + n \<le> length bytes)"
      and "fst (snd (read_file nm n a))
               = take n (drop (unat (ent_offset (m_files a ! i))) bytes)"
      by simp_all
    from extract_file_found [OF l i fl]
    show "fst (extract_file nm True buf a) = Returns True" .
    show "unat (ent_offset (m_files a ! i)) + unat (ent_size (m_files a ! i)) \<le> length bytes
                \<longrightarrow> fst (snd (extract_file nm True buf a))
                  = Some (take (unat (ent_size (m_files a ! i)))
                            (drop (unat (ent_offset (m_files a ! i))) bytes))"
    proof
      assume "unat (ent_offset (m_files a ! i)) + unat (ent_size (m_files a ! i)) \<le> length bytes"
      then have "unat (ent_offset (m_files a ! i)) + unat (ent_size (m_files a ! i))
          \<le> length (data \<lparr>data = bytes, pos = ?off + ?sz\<rparr>)"
        by simp
      from extract_file_exact [OF l i fl this]
      show "fst (snd (extract_file nm True buf a))
                  = Some (take (unat (ent_size (m_files a ! i)))
                            (drop (unat (ent_offset (m_files a ! i))) bytes))"
        by simp
    qed
  qed
  from 1 2 3 4 5 6 7 8 9 show ?thesis by blast
qed

text \<open>
  The archive \<open>dup_pak\<close> has two entries named \<open>a\<close>, the first of size 3 at offset
  140 with the bytes 1, 2, 3, the second of size 1 at offset 143 with the byte 9. Both
  are enumerated, and the name resolves to the first: \<^verbatim>\<open>stat\<close> reports size 3 at
  offset 140, \<^verbatim>\<open>read_file\<close> reads the byte 1, and \<^verbatim>\<open>extract_file\<close> writes the
  bytes 1, 2, 3.
\<close>

theorem lookup_later_duplicate_counterexample:
  "fst (open_archive (Some dup_pak) pak_archive_init) = Returns True
   \<and> enumerate_archive (snd (open_archive (Some dup_pak) pak_archive_init))
       = [(name_a, \<lparr>det_offset = 140, det_size = 3\<rparr>), (name_a, \<lparr>det_offset = 143, det_size = 1\<rparr>)]
   \<and> m_lookupMap (snd (open_archive (Some dup_pak) pak_archive_init)) name_a = Some 0
   \<and> m_lookupMap (snd (open_archive (Some dup_pak) pak_archive_init)) name_a \<noteq> Some 1
   \<and> stat name_a (snd (open_archive (Some dup_pak) pak_archive_init))
       = (Returns True, Some (3, 140))
   \<and> fst (snd (read_file name_a 1 (snd (open_archive (Some dup_pak) pak_archive_init)))) = [1]
   \<and> fst (snd (read_file name_a 1 (snd (open_archive (Some dup_pak) pak_archive_init)))) \<noteq> [9]
   \<and> fst (snd (extract_file name_a True zero_buf
        (snd (open_archive (Some dup_pak) pak_archive_init)))) = Some [1, 2, 3]
   \<and> fst (snd (extract_file name_a True zero_buf
        (snd (open_archive (Some dup_pak) pak_archive_init)))) \<noteq> Some [9]"
proof -
  have "[0..<length (m_files dup_state)] = [0, 1]"
    by (simp add: dup_state_def upt_rec)
  then have e: "enumerate_archive dup_state
       = [(name_a, \<lparr>det_offset = 140, det_size = 3\<rparr>), (name_a, \<lparr>det_offset = 143, det_size = 1\<rparr>)]"
    by (simp add: enumerate_archive_def iter_begin_def iter_end_def iter_deref_def)
      (simp add: dup_state_def decode_name_a)
  have s: "stat name_a dup_state = (Returns True, Some (3, 140))"
    by (simp add: dup_state_def stat_def)
  have l: "m_lookupMap dup_state name_a = Some 0"
    by (simp add: dup_state_def)
  show ?thesis
    unfolding open_dup_pak using e s l dup_read dup_extract by simp
qed

theorem open_lookup_first_entry_witness:
  "fst (open_archive (Some dup_pak) pak_archive_init) = Returns True
   \<and> length (m_files (snd (open_archive (Some dup_pak) pak_archive_init))) = 2
   \<and> m_lookupMap (snd (open_archive (Some dup_pak) pak_archive_init)) name_a = Some 0
   \<and> stat name_a (snd (open_archive (Some dup_pak) pak_archive_init))
       = (Returns True, Some (3, 140))
   \<and> fst (read_file name_a 4 (snd (open_archive (Some dup_pak) pak_archive_init)))
       = Returns True
   \<and> fst (snd (read_file name_a 4 (snd (open_archive (Some dup_pak) pak_archive_init))))
       = [1, 2, 3, 9]
   \<and> fst (extract_file name_a True zero_buf
        (snd (open_archive (Some dup_pak) pak_archive_init))) = Returns True
   \<and> fst (snd (extract_file name_a True zero_buf
        (snd (open_archive (Some dup_pak) pak_archive_init)))) = Some [1, 2, 3]"
proof -
  let ?a = "snd (open_archive (Some dup_pak) pak_archive_init)"
  have o: "open_archive (Some dup_pak) pak_archive_init = (Returns True, ?a)"
    by (simp add: open_dup_pak)
  have h: "\<lparr>hdr_id = PACK, hdr_offset = 12, hdr_size = 128\<rparr> = decode_header (take 12 dup_pak)"
    unfolding dup_pak_def by (rule decode_header_PACK [symmetric])
  have m: "m_files ?a = [\<lparr>ent_name = strncpy name_a 56, ent_offset = 140, ent_size = 3\<rparr>,
                   \<lparr>ent_name = strncpy name_a 56, ent_offset = 143, ent_size = 1\<rparr>]"
    by (simp add: open_dup_pak dup_state_def)
  have t: "take 4 (drop 140 dup_pak) = [1, 2, 3, 9]" "take 3 (drop 140 dup_pak) = [1, 2, 3]"
    "length dup_pak = 144"
    by (simp_all add: dup_pak_def)
  have f: "fst (open_archive (Some dup_pak) pak_archive_init) = Returns True"
    by (simp add: open_dup_pak)
  from f open_lookup_first_entry [OF o h, of name_a 0 4 zero_buf]
  show ?thesis
    unfolding m by (simp add: decode_name_a t)
qed

section \<open>Building, then opening\<close>

lemma add_file_ok:
  "length nm \<le> MAX_PAK_NAME_LEN \<Longrightarrow> disk p = Some c \<Longrightarrow> length c \<le> UINT32_MAX \<Longrightarrow>
   add_file disk p nm b = (Returns True, b\<lparr>b_files := b_files b @ [pending disk (p, nm)]\<rparr>)"
  by (simp add: add_file_def pending_def)

lemma add_all_ok:
  "\<forall>x\<in>set files. length (snd x) \<le> MAX_PAK_NAME_LEN
      \<and> (\<exists>c. disk (fst x) = Some c \<and> length c \<le> UINT32_MAX) \<Longrightarrow>
   add_all disk files b = (Returns (), b\<lparr>b_files := b_files b @ map (pending disk) files\<rparr>)"
proof (induction files arbitrary: b)
  case Nil
  then show ?case by simp
next
  case (Cons x files)
  obtain p nm where x: "x = (p, nm)" by (cases x)
  from Cons.prems x obtain c where c: "length nm \<le> MAX_PAK_NAME_LEN" "disk p = Some c"
    "length c \<le> UINT32_MAX" by auto
  have "add_all disk files (b\<lparr>b_files := b_files b @ [pending disk (p, nm)]\<rparr>)
      = (Returns (), b\<lparr>b_files := b_files b @ [pending disk (p, nm)]\<rparr>
           \<lparr>b_files := b_files (b\<lparr>b_files := b_files b @ [pending disk (p, nm)]\<rparr>)
              @ map (pending disk) files\<rparr>)"
    using Cons.prems by (intro Cons.IH) simp
  then show ?case
    using add_file_ok [of nm disk p c b] c by (simp add: x)
qed

lemma extract_all_exact:
  assumes "\<forall>nm\<in>set nms. \<exists>i. lm nm = Some i \<and> i < length ents
        \<and> unat (ent_offset (ents ! i)) + unat (ent_size (ents ! i)) \<le> length arch"
    and "m_lookupMap a = lm" and "m_files a = ents" and "m_file a = Opened s" and "data s = arch"
  shows "fst (extract_all buf nms a) =
     map (\<lambda>nm. (Returns True,
        Some (take (unat (ent_size (ents ! the (lm nm))))
               (drop (unat (ent_offset (ents ! the (lm nm)))) arch)))) nms"
  using assms
proof (induction nms arbitrary: a s)
  case Nil
  then show ?case by simp
next
  case (Cons nm nms)
  from Cons.prems(1) obtain i where i: "lm nm = Some i" "i < length ents"
    "unat (ent_offset (ents ! i)) + unat (ent_size (ents ! i)) \<le> length arch" by auto
  define s' where "s' = s\<lparr>pos := unat (ent_offset (m_files a ! i)) + unat (ent_size (m_files a ! i))\<rparr>"
  define a' where "a' = a\<lparr>m_file := Opened s'\<rparr>"
  have ex: "extract_file nm True buf a =
     (Returns True,
      Some (take (unat (ent_size (ents ! i))) (drop (unat (ent_offset (ents ! i))) arch)), a')"
    using extract_file_exact [of a nm i s buf] i Cons.prems(2-5)
    by (simp add: a'_def s'_def)
  have 1: "\<forall>nm\<in>set nms. \<exists>i. lm nm = Some i \<and> i < length ents
        \<and> unat (ent_offset (ents ! i)) + unat (ent_size (ents ! i)) \<le> length arch"
    using Cons.prems(1) by simp
  have ih: "fst (extract_all buf nms a') =
     map (\<lambda>nm. (Returns True,
        Some (take (unat (ent_size (ents ! the (lm nm))))
               (drop (unat (ent_offset (ents ! the (lm nm)))) arch)))) nms"
    using Cons.prems(2-5) by (intro Cons.IH [OF 1, of a' s']) (simp_all add: a'_def s'_def)
  show ?case
    using ih i(1) by (simp add: ex case_prod_beta)
qed


lemma sum_list_take_nth_le:
  "i < length (xs :: nat list) \<Longrightarrow> sum_list (take i xs) + xs ! i \<le> sum_list xs"
proof -
  assume "i < length xs"
  then have "xs = take i xs @ xs ! i # drop (Suc i) xs"
    by (rule id_take_nth_drop)
  then have "sum_list xs = sum_list (take i xs) + xs ! i + sum_list (drop (Suc i) xs)"
    by (metis sum_list.Cons sum_list.append add.assoc)
  then show ?thesis by simp
qed

lemma built:
  assumes ne: "files \<noteq> []" and n26: "length files < 2 ^ 26"
    and ok: "\<forall>x\<in>set files. length (snd x) \<le> MAX_PAK_NAME_LEN
        \<and> (\<exists>c. disk (fst x) = Some c \<and> length c \<le> UINT32_MAX)"
    and tot: "12 + 64 * length files + sum_list sizes < 2 ^ 64"
    and a0: "m_file a0 \<noteq> Stale"
    and sizes: "sizes = map (\<lambda>x. length (the (disk (fst x)))) files"
    and ents: "ents = map (\<lambda>i. \<lparr>ent_name = strncpy (snd (files ! i)) MAX_PAK_NAME_LEN,
                  ent_offset = word_of_nat (spec_offset sizes i),
                  ent_size = word_of_nat (sizes ! i)\<rparr>) [0..<length files]"
    and arch: "arch = PACK @ le32 12 @ le32 (word_of_nat (64 * length files))
                  @ concat (map encode_entry ents)
                  @ concat (map (\<lambda>x. the (disk (fst x))) files)"
  shows "add_all disk files pak_builder_init = (Returns (), \<lparr>b_files = map (pending disk) files\<rparr>)"
    and "fst (write_archive disk True buf \<lparr>b_files = map (pending disk) files\<rparr>) = True"
    and "fst (snd (write_archive disk True buf \<lparr>b_files = map (pending disk) files\<rparr>)) = Some arch"
    and "open_archive (Some arch) a0 =
       (Returns True, \<lparr>m_file = Opened \<lparr>data = arch, pos = 12 + 64 * length files\<rparr>,
          m_fileSize = length arch, m_files = ents, m_errno = NoError,
          m_lookupMap = populate ents 0 Map.empty\<rparr>)"
    and "\<forall>i<length files.
           take (sizes ! i) (drop (spec_offset sizes i) arch) = the (disk (fst (files ! i)))
           \<and> spec_offset sizes i + sizes ! i \<le> length arch"
proof -
  define n where "n = length files"
  define fs where "fs = map (pending disk) files"
  define fs' where "fs' = assigned fs (12 + 64 * n)"
  define contents where "contents = map (\<lambda>x. the (disk (fst x))) files"
  have lfs: "length fs = n" "length fs' = n"
    by (simp_all add: fs_def fs'_def n_def)
  have ls: "length sizes = n" by (simp add: sizes n_def)
  have fsz: "map f_size fs = sizes"
    by (simp add: fs_def sizes pending_def comp_def)
  have fcont: "map (\<lambda>f. the (disk (disk_path f))) fs = contents"
    by (simp add: fs_def contents_def pending_def comp_def)
  have lcont: "map length contents = sizes"
    by (simp add: contents_def sizes comp_def)
  show "add_all disk files pak_builder_init = (Returns (), \<lparr>b_files = map (pending disk) files\<rparr>)"
    using add_all_ok [OF ok, of pak_builder_init] by (simp add: pak_builder_init_def)
  have e: "map entry_of fs' = ents"
  proof (rule nth_equalityI)
    show "length (map entry_of fs') = length ents"
      by (simp add: lfs ents n_def)
  next
    fix i assume "i < length (map entry_of fs')"
    then have i: "i < n" by (simp add: lfs)
    then have i': "i < length fs" by (simp add: lfs)
    have x: "files ! i \<in> set files" using i by (simp add: n_def)
    have "pak_path (fs' ! i) = pak_path (fs ! i)" "f_size (fs' ! i) = f_size (fs ! i)"
      using assigned_fields(2,3) [of fs "12 + 64 * n"] i lfs
      unfolding fs'_def [symmetric] by (metis nth_map)+
    moreover have "pak_path (fs ! i) = strncpy (snd (files ! i)) MAX_PAK_NAME_LEN @ [0]"
      using i by (simp add: fs_def pending_def n_def)
    moreover have "f_size (fs ! i) = sizes ! i"
      using i' fsz by (metis nth_map)
    moreover have "f_offset (fs' ! i) = spec_offset sizes i"
      using assigned_offset [OF i', of "12 + 64 * n"] tot
      by (simp add: fs'_def spec_offset_def fsz [symmetric] take_map lfs n_def)
    moreover have "strncpy (strncpy (snd (files ! i)) MAX_PAK_NAME_LEN @ [0]) MAX_PAK_NAME_LEN
        = strncpy (snd (files ! i)) MAX_PAK_NAME_LEN"
      using ok x by (intro strncpy_pak_path) blast
    ultimately show "map entry_of fs' ! i = ents ! i"
      using i by (simp add: lfs ents entry_of_def n_def)
  qed
  have src: "\<forall>f\<in>set (b_files \<lparr>b_files = fs\<rparr>). \<exists>c. disk (disk_path f) = Some c
      \<and> length c = f_size f \<and> f_size f < 2 ^ 63"
  proof
    fix f assume "f \<in> set (b_files \<lparr>b_files = fs\<rparr>)"
    then obtain x where x: "x \<in> set files" "f = pending disk x"
      by (auto simp: fs_def)
    with ok obtain c where "disk (fst x) = Some c" "length c \<le> UINT32_MAX" by blast
    then show "\<exists>c. disk (disk_path f) = Some c \<and> length c = f_size f \<and> f_size f < 2 ^ 63"
      using x(2) by (simp add: pending_def UINT32_MAX_def)
  qed
  have w: "write_archive disk True buf \<lparr>b_files = fs\<rparr> = (True, Some arch, \<lparr>b_files = fs'\<rparr>)"
  proof -
    have 2: "length (b_files \<lparr>b_files = fs\<rparr>) < 2 ^ 26" using n26 by (simp add: lfs n_def)
    have 3: "12 + 64 * length (b_files \<lparr>b_files = fs\<rparr>)
        + sum_list (map f_size (b_files \<lparr>b_files = fs\<rparr>)) < 2 ^ 64"
      using tot by (simp add: lfs fsz n_def)
    have c: "concat (map (\<lambda>f. encode_entry (entry_of f)) fs') = concat (map encode_entry ents)"
      unfolding e [symmetric] by (simp add: comp_def)
    have f': "assigned fs (12 + 64 * length files) = fs'"
      by (simp add: fs'_def n_def)
    have lf: "length fs = length files" by (simp add: lfs n_def)
    show ?thesis
      unfolding write_archive_exact [OF src 2 3]
      by (simp add: lf f' c fcont arch contents_def)
  qed
  then show "fst (write_archive disk True buf \<lparr>b_files = map (pending disk) files\<rparr>) = True"
    and "fst (snd (write_archive disk True buf \<lparr>b_files = map (pending disk) files\<rparr>)) = Some arch"
    by (simp_all add: fs_def)
  have ne': "fs' \<noteq> []" using ne lfs by (auto simp: n_def)
  have n26': "length fs' < 2 ^ 26" using n26 by (simp add: lfs n_def)
  have arch': "arch = PACK @ le32 12 @ le32 (word_of_nat (64 * length fs'))
          @ concat (map (\<lambda>f. encode_entry (entry_of f)) fs') @ concat contents"
    unfolding arch e [symmetric] by (simp add: lfs n_def contents_def comp_def)
  show "open_archive (Some arch) a0 =
       (Returns True, \<lparr>m_file = Opened \<lparr>data = arch, pos = 12 + 64 * length files\<rparr>,
          m_fileSize = length arch, m_files = ents, m_errno = NoError,
          m_lookupMap = populate ents 0 Map.empty\<rparr>)"
    using open_built_archive [OF a0 ne' n26' arch'] by (simp add: e lfs n_def)
  have lh: "length (PACK @ le32 12 @ le32 (word_of_nat (64 * length fs'))
          @ concat (map (\<lambda>f. encode_entry (entry_of f)) fs')) = 12 + 64 * n"
    by (simp add: length_concat comp_def sum_list_triv lfs)
  have larch: "length arch = 12 + 64 * n + sum_list sizes"
    unfolding arch' using lh by (simp add: length_concat lcont)
  show "\<forall>i<length files.
           take (sizes ! i) (drop (spec_offset sizes i) arch) = the (disk (fst (files ! i)))
           \<and> spec_offset sizes i + sizes ! i \<le> length arch"
  proof (intro allI impI)
    fix i assume "i < length files"
    then have i: "i < n" by (simp add: n_def)
    then have ic: "i < length contents" by (simp add: contents_def n_def)
    have lc: "length contents = n" by (simp add: contents_def n_def)
    have so: "spec_offset sizes i = (12 + 64 * n) + sum_list (map length (take i contents))"
      by (simp add: spec_offset_def lc lcont [symmetric] take_map)
    have "drop (spec_offset sizes i) arch = drop (sum_list (map length (take i contents))) (concat contents)"
      unfolding so arch' using lh by (simp add: drop_append del: append_assoc flip: append_assoc)
    moreover have "sizes ! i = length (contents ! i)"
      using ic lcont by (metis nth_map)
    ultimately have "take (sizes ! i) (drop (spec_offset sizes i) arch) = contents ! i"
      using concat_take_drop [OF ic] by simp
    moreover have "contents ! i = the (disk (fst (files ! i)))"
      using i by (simp add: contents_def n_def)
    moreover have "spec_offset sizes i + sizes ! i \<le> length arch"
      using sum_list_take_nth_le [of i sizes] i
      by (simp add: spec_offset_def larch ls)
    ultimately show "take (sizes ! i) (drop (spec_offset sizes i) arch) = the (disk (fst (files ! i)))
           \<and> spec_offset sizes i + sizes ! i \<le> length arch"
      by simp
  qed
qed


section \<open>The round trip\<close>

lemma member_le_sum_list_nat: "(x :: nat) \<in> set xs \<Longrightarrow> x \<le> sum_list xs"
  by (induction xs) auto

lemma sum_list_le_times:
  "\<forall>x\<in>set xs. x \<le> (m :: nat) \<Longrightarrow> sum_list xs \<le> length xs * m"
  by (induction xs) auto

text \<open>
  Claim C1 says that every set of files with names of at most 56 bytes and sizes below
  4 GiB survives building, opening and extracting. As amended: for every non-empty list
  of sources and names in which the names are pairwise distinct, have at most 56 bytes
  and no NUL byte, every source exists and has fewer than \<open>2 ^ 32\<close> bytes, and the
  data offset of every file (\<open>12 + 64 * n\<close> plus the sizes of the files before it)
  is below \<open>2 ^ 32\<close>: registering the files in order succeeds, \<^verbatim>\<open>write\<close>
  succeeds, \<^verbatim>\<open>open\<close> of the written archive succeeds on every reader whose stream
  pointer is null or open, \<^verbatim>\<open>file_count()\<close> is the number of files registered, and
  \<^verbatim>\<open>extract_file\<close> of every name, on the reader as opened or one name after the
  other, returns true and writes exactly the bytes of that file's source.
\<close>

theorem round_trip:
  assumes ne: "files \<noteq> []"
    and dist: "distinct (map snd files)"
    and ok: "\<forall>x\<in>set files. length (snd x) \<le> MAX_PAK_NAME_LEN \<and> 0 \<notin> set (snd x)
          \<and> (\<exists>c. disk (fst x) = Some c \<and> length c \<le> UINT32_MAX)"
    and offs: "\<forall>i<length files.
          spec_offset (map (\<lambda>x. length (the (disk (fst x)))) files) i < 2 ^ 32"
    and a0: "m_file a0 \<noteq> Stale"
  shows "\<exists>b arch b' a.
       add_all disk files pak_builder_init = (Returns (), b)
     \<and> write_archive disk True buf b = (True, Some arch, b')
     \<and> open_archive (Some arch) a0 = (Returns True, a)
     \<and> file_count a = int (length files)
     \<and> fst (extract_all buf' (map snd files) a) = map (\<lambda>x. (Returns True, disk (fst x))) files
     \<and> (\<forall>x\<in>set files. fst (extract_file (snd x) True buf' a) = Returns True
            \<and> fst (snd (extract_file (snd x) True buf' a)) = disk (fst x))"
proof -
  define n where "n = length files"
  define sizes where "sizes = map (\<lambda>x. length (the (disk (fst x)))) files"
  define ents where "ents = map (\<lambda>i. \<lparr>ent_name = strncpy (snd (files ! i)) MAX_PAK_NAME_LEN,
                  ent_offset = word_of_nat (spec_offset sizes i),
                  ent_size = word_of_nat (sizes ! i)\<rparr>) [0..<length files]"
  define arch where "arch = PACK @ le32 12 @ le32 (word_of_nat (64 * length files))
                  @ concat (map encode_entry ents)
                  @ concat (map (\<lambda>x. the (disk (fst x))) files)"
  define a where "a = \<lparr>m_file = Opened \<lparr>data = arch, pos = 12 + 64 * length files\<rparr>,
          m_fileSize = length arch, m_files = ents, m_errno = NoError,
          m_lookupMap = populate ents 0 Map.empty\<rparr>"
  define b where "b = \<lparr>b_files = map (pending disk) files\<rparr>"
  have offs': "\<forall>i<n. spec_offset sizes i < 2 ^ 32"
    using offs by (simp add: n_def sizes_def)
  have n0: "0 < n" using ne by (simp add: n_def)
  have "spec_offset sizes 0 = 12 + 64 * n"
    by (simp add: spec_offset_def sizes_def n_def)
  with offs' n0 have "12 + 64 * n < 2 ^ 32" by auto
  then have n26: "length files < 2 ^ 26" by (simp add: n_def)
  have ok': "\<forall>x\<in>set files. length (snd x) \<le> MAX_PAK_NAME_LEN
        \<and> (\<exists>c. disk (fst x) = Some c \<and> length c \<le> UINT32_MAX)"
    using ok by blast
  have small: "\<forall>s\<in>set sizes. s \<le> UINT32_MAX"
    using ok by (auto simp: sizes_def)
  have "sum_list sizes \<le> length sizes * UINT32_MAX"
    using small by (rule sum_list_le_times)
  then have "sum_list sizes \<le> n * 4294967295"
    by (simp add: sizes_def n_def UINT32_MAX_def)
  then have t64: "12 + 64 * length files + sum_list sizes < 2 ^ 64"
    using n26 by (simp add: n_def)
  note B = built [OF ne n26 ok' t64 a0 sizes_def ents_def arch_def]
  have 1: "add_all disk files pak_builder_init = (Returns (), b)"
    using B(1) by (simp add: b_def)
  have 2: "write_archive disk True buf b
      = (True, Some arch, snd (snd (write_archive disk True buf b)))"
    using B(2,3) [of buf] unfolding b_def [symmetric] by (metis prod.collapse)
  have 3: "open_archive (Some arch) a0 = (Returns True, a)"
    using B(4) by (simp add: a_def)
  have 4: "file_count a = int (length files)"
    by (simp add: file_count_def a_def ents_def)
  have per: "\<forall>i<n. m_lookupMap a (snd (files ! i)) = Some i
      \<and> unat (ent_offset (ents ! i)) = spec_offset sizes i
      \<and> unat (ent_size (ents ! i)) = sizes ! i
      \<and> take (sizes ! i) (drop (spec_offset sizes i) arch) = the (disk (fst (files ! i)))
      \<and> spec_offset sizes i + sizes ! i \<le> length arch"
  proof (intro allI impI)
    fix i assume i: "i < n"
    then have x: "files ! i \<in> set files" by (simp add: n_def)
    have nm: "decode_name (ent_name (ents ! j)) = snd (files ! j)" if "j < n" for j
    proof -
      have "files ! j \<in> set files" using that by (simp add: n_def)
      with ok have "length (snd (files ! j)) \<le> MAX_PAK_NAME_LEN" "0 \<notin> set (snd (files ! j))"
        by blast+
      then show ?thesis
        using that by (simp add: ents_def n_def decode_name_strncpy c_str_no_NUL)
    qed
    have "\<forall>j<i. decode_name (ent_name (ents ! j)) \<noteq> snd (files ! i)"
    proof (intro allI impI)
      fix j assume j: "j < i"
      then have "j < length (map snd files)" "i < length (map snd files)" "j \<noteq> i"
        using i by (simp_all add: n_def)
      then have "map snd files ! j \<noteq> map snd files ! i"
        using dist nth_eq_iff_index_eq by blast
      then show "decode_name (ent_name (ents ! j)) \<noteq> snd (files ! i)"
        using j i nm [of j] by (simp add: n_def)
    qed
    then have l: "m_lookupMap a (snd (files ! i)) = Some i"
      using i nm [OF i] by (simp add: a_def populate_empty_iff) (simp add: ents_def n_def)
    have le: "spec_offset sizes i + sizes ! i \<le> length arch"
      and bytes: "take (sizes ! i) (drop (spec_offset sizes i) arch) = the (disk (fst (files ! i)))"
      using B(5) i by (simp_all add: n_def)
    have larch: "length arch = 12 + 64 * n + sum_list sizes"
      by (simp add: arch_def length_concat comp_def sum_list_triv ents_def encode_entry_def
          MAX_PAK_NAME_LEN_def sizes_def n_def)
    have "sizes ! i \<in> set sizes"
      using i by (simp add: sizes_def n_def)
    with small have "sizes ! i \<le> UINT32_MAX" by blast
    with offs' i have "spec_offset sizes i < 2 ^ 32" "sizes ! i < 2 ^ 32"
      by (simp_all add: UINT32_MAX_def)
    then have "unat (word_of_nat (spec_offset sizes i) :: 32 word) = spec_offset sizes i"
      "unat (word_of_nat (sizes ! i) :: 32 word) = sizes ! i"
      by (simp_all add: unat_of_nat)
    then have u: "unat (ent_offset (ents ! i)) = spec_offset sizes i"
      "unat (ent_size (ents ! i)) = sizes ! i"
      using i by (simp_all add: ents_def n_def)
    from l u bytes le show "m_lookupMap a (snd (files ! i)) = Some i
      \<and> unat (ent_offset (ents ! i)) = spec_offset sizes i
      \<and> unat (ent_size (ents ! i)) = sizes ! i
      \<and> take (sizes ! i) (drop (spec_offset sizes i) arch) = the (disk (fst (files ! i)))
      \<and> spec_offset sizes i + sizes ! i \<le> length arch" by simp
  qed
  have lents: "length ents = n" by (simp add: ents_def n_def)
  have one: "fst (extract_file (snd x) True buf' a) = Returns True
            \<and> fst (snd (extract_file (snd x) True buf' a)) = disk (fst x)"
    if "x \<in> set files" for x
  proof -
    from that obtain i where i: "i < n" "x = files ! i"
      by (metis in_set_conv_nth n_def)
    from ok that obtain c where c: "disk (fst x) = Some c" by auto
    have "extract_file (snd x) True buf' a =
     (Returns True,
      Some (take (unat (ent_size (m_files a ! i))) (drop (unat (ent_offset (m_files a ! i)))
         (data \<lparr>data = arch, pos = 12 + 64 * length files\<rparr>))),
      a\<lparr>m_file := Opened (\<lparr>data = arch, pos = 12 + 64 * length files\<rparr>
          \<lparr>pos := unat (ent_offset (m_files a ! i)) + unat (ent_size (m_files a ! i))\<rparr>)\<rparr>)"
      using per i lents by (intro extract_file_exact) (simp_all add: a_def)
    then show ?thesis
      using per i c by (simp add: a_def)
  qed
  have all: "fst (extract_all buf' (map snd files) a)
      = map (\<lambda>x. (Returns True, disk (fst x))) files"
  proof -
    have h: "\<forall>nm\<in>set (map snd files). \<exists>i. m_lookupMap a nm = Some i \<and> i < length ents
        \<and> unat (ent_offset (ents ! i)) + unat (ent_size (ents ! i)) \<le> length arch"
    proof
      fix nm assume "nm \<in> set (map snd files)"
      then obtain i where i: "i < n" "nm = snd (files ! i)"
        by (auto simp: in_set_conv_nth n_def)
      with per lents show "\<exists>i. m_lookupMap a nm = Some i \<and> i < length ents
        \<and> unat (ent_offset (ents ! i)) + unat (ent_size (ents ! i)) \<le> length arch"
        by (intro exI [of _ i]) simp
    qed
    have "fst (extract_all buf' (map snd files) a) =
      map (\<lambda>nm. (Returns True,
        Some (take (unat (ent_size (ents ! the (m_lookupMap a nm))))
               (drop (unat (ent_offset (ents ! the (m_lookupMap a nm)))) arch)))) (map snd files)"
      by (rule extract_all_exact [OF h refl, of "\<lparr>data = arch, pos = 12 + 64 * length files\<rparr>"])
        (simp_all add: a_def)
    also have "\<dots> = map (\<lambda>x. (Returns True, disk (fst x))) files"
    proof (rule nth_equalityI)
      show "length (map (\<lambda>nm. (Returns True,
        Some (take (unat (ent_size (ents ! the (m_lookupMap a nm))))
               (drop (unat (ent_offset (ents ! the (m_lookupMap a nm)))) arch)))) (map snd files))
         = length (map (\<lambda>x. (Returns True, disk (fst x))) files)" by simp
    next
      fix i assume "i < length (map (\<lambda>nm. (Returns True,
        Some (take (unat (ent_size (ents ! the (m_lookupMap a nm))))
               (drop (unat (ent_offset (ents ! the (m_lookupMap a nm)))) arch)))) (map snd files))"
      then have i: "i < n" by (simp add: n_def)
      then have "files ! i \<in> set files" by (simp add: n_def)
      with ok obtain c where c: "disk (fst (files ! i)) = Some c" by auto
      show "map (\<lambda>nm. (Returns True,
        Some (take (unat (ent_size (ents ! the (m_lookupMap a nm))))
               (drop (unat (ent_offset (ents ! the (m_lookupMap a nm)))) arch)))) (map snd files) ! i
         = map (\<lambda>x. (Returns True, disk (fst x))) files ! i"
        using per i c by (simp add: n_def)
    qed
    finally show ?thesis .
  qed
  from 1 2 3 4 all one show ?thesis by blast
qed


lemma upt_2: "[0..<2] = [0, 1]"
  by (simp add: upt_rec numeral_2_eq_2)

lemma spec_offset_two:
  "spec_offset [s0, s1] 0 = 140" "spec_offset [s0, s1] (Suc 0) = 140 + s0"
  by (simp_all add: spec_offset_def)

theorem round_trip_witness:
  "(\<exists>b arch b' a.
       add_all sample_disk ab_list pak_builder_init = (Returns (), b)
     \<and> write_archive sample_disk True zero_buf b = (True, Some arch, b')
     \<and> open_archive (Some arch) pak_archive_init = (Returns True, a)
     \<and> file_count a = 2
     \<and> fst (extract_all zero_buf [name_a, name_b] a)
         = [(Returns True, Some [1, 2, 3]), (Returns True, Some [9])])
   \<and> (\<exists>b arch b' a.
       add_all max_disk max_list pak_builder_init = (Returns (), b)
     \<and> write_archive max_disk True zero_buf b = (True, Some arch, b')
     \<and> open_archive (Some arch) pak_archive_init = (Returns True, a)
     \<and> file_count a = 1
     \<and> fst (extract_file name_a True zero_buf a) = Returns True
     \<and> fst (snd (extract_file name_a True zero_buf a)) = Some (replicate 4294967295 0))"
proof -
  have 1: "ab_list \<noteq> []" by (simp add: ab_list_def)
  have 2: "distinct (map snd ab_list)" by (simp add: ab_list_def name_a_def name_b_def)
  have 3: "\<forall>x\<in>set ab_list. length (snd x) \<le> MAX_PAK_NAME_LEN \<and> 0 \<notin> set (snd x)
          \<and> (\<exists>c. sample_disk (fst x) = Some c \<and> length c \<le> UINT32_MAX)"
    by (simp add: ab_list_def name_a_def name_b_def MAX_PAK_NAME_LEN_def sample_disk_def
        UINT32_MAX_def)
  have 4: "\<forall>i<length ab_list.
          spec_offset (map (\<lambda>x. length (the (sample_disk (fst x)))) ab_list) i < 2 ^ 32"
    by (simp add: ab_list_def sample_disk_def spec_offset_def All_less_Suc)
  have m: "map snd ab_list = [name_a, name_b]"
    "map (\<lambda>x. (Returns True, sample_disk (fst x))) ab_list
       = [(Returns True, Some [1, 2, 3]), (Returns True, Some [9])]"
    "int (length ab_list) = 2"
    by (simp_all add: ab_list_def sample_disk_def)
  have ab: "\<exists>b arch b' a.
       add_all sample_disk ab_list pak_builder_init = (Returns (), b)
     \<and> write_archive sample_disk True zero_buf b = (True, Some arch, b')
     \<and> open_archive (Some arch) pak_archive_init = (Returns True, a)
     \<and> file_count a = 2
     \<and> fst (extract_all zero_buf [name_a, name_b] a)
         = [(Returns True, Some [1, 2, 3]), (Returns True, Some [9])]"
    using round_trip [OF 1 2 3 4 pak_archive_init_not_Stale, of zero_buf zero_buf]
    unfolding m by blast
  have 5: "max_list \<noteq> []" by (simp add: max_list_def)
  have 6: "distinct (map snd max_list)" by (simp add: max_list_def)
  have 7: "\<forall>x\<in>set max_list. length (snd x) \<le> MAX_PAK_NAME_LEN \<and> 0 \<notin> set (snd x)
          \<and> (\<exists>c. max_disk (fst x) = Some c \<and> length c \<le> UINT32_MAX)"
    by (simp add: max_list_def name_a_def MAX_PAK_NAME_LEN_def max_disk_def UINT32_MAX_def)
  have 8: "\<forall>i<length max_list.
          spec_offset (map (\<lambda>x. length (the (max_disk (fst x)))) max_list) i < 2 ^ 32"
    by (simp add: max_list_def spec_offset_def)
  have x: "(''m'', name_a) \<in> set max_list" "int (length max_list) = 1"
    "max_disk ''m'' = Some (replicate 4294967295 0)"
    by (simp_all add: max_list_def max_disk_def)
  from round_trip [OF 5 6 7 8 pak_archive_init_not_Stale, of zero_buf zero_buf]
  obtain b arch b' a where r:
    "add_all max_disk max_list pak_builder_init = (Returns (), b)"
    "write_archive max_disk True zero_buf b = (True, Some arch, b')"
    "open_archive (Some arch) pak_archive_init = (Returns True, a)"
    "file_count a = int (length max_list)"
    "\<forall>x\<in>set max_list. fst (extract_file (snd x) True zero_buf a) = Returns True
            \<and> fst (snd (extract_file (snd x) True zero_buf a)) = max_disk (fst x)"
    by blast
  from r(5) x(1) have "fst (extract_file name_a True zero_buf a) = Returns True
            \<and> fst (snd (extract_file name_a True zero_buf a)) = max_disk ''m''"
    by fastforce
  with r(1-4) x(2,3) have mx: "\<exists>b arch b' a.
       add_all max_disk max_list pak_builder_init = (Returns (), b)
     \<and> write_archive max_disk True zero_buf b = (True, Some arch, b')
     \<and> open_archive (Some arch) pak_archive_init = (Returns True, a)
     \<and> file_count a = 1
     \<and> fst (extract_file name_a True zero_buf a) = Returns True
     \<and> fst (snd (extract_file name_a True zero_buf a)) = Some (replicate 4294967295 0)"
    by auto
  from ab mx show ?thesis by (rule conjI)
qed


lemma dup_round:
  "fst (add_all sample_disk dup_list pak_builder_init) = Returns ()
   \<and> fst (write_archive sample_disk True zero_buf
          (snd (add_all sample_disk dup_list pak_builder_init))) = True
   \<and> fst (snd (write_archive sample_disk True zero_buf
          (snd (add_all sample_disk dup_list pak_builder_init)))) = Some dup_pak"
proof -
  define sizes where "sizes = map (\<lambda>x. length (the (sample_disk (fst x)))) dup_list"
  define ents where "ents = map (\<lambda>i. \<lparr>ent_name = strncpy (snd (dup_list ! i)) MAX_PAK_NAME_LEN,
                  ent_offset = word_of_nat (spec_offset sizes i),
                  ent_size = word_of_nat (sizes ! i)\<rparr>) [0..<length dup_list]"
  define arch where "arch = PACK @ le32 12 @ le32 (word_of_nat (64 * length dup_list))
                  @ concat (map encode_entry ents)
                  @ concat (map (\<lambda>x. the (sample_disk (fst x))) dup_list)"
  have s: "sizes = [3, 1]" by (simp add: sizes_def dup_list_def sample_disk_def)
  have 1: "dup_list \<noteq> []" "length dup_list < 2 ^ 26" by (simp_all add: dup_list_def)
  have 3: "\<forall>x\<in>set dup_list. length (snd x) \<le> MAX_PAK_NAME_LEN
        \<and> (\<exists>c. sample_disk (fst x) = Some c \<and> length c \<le> UINT32_MAX)"
    by (simp add: dup_list_def name_a_def MAX_PAK_NAME_LEN_def sample_disk_def UINT32_MAX_def)
  have 4: "12 + 64 * length dup_list + sum_list sizes < 2 ^ 64"
    by (simp add: s dup_list_def)
  have e: "ents = [\<lparr>ent_name = strncpy name_a 56, ent_offset = 140, ent_size = 3\<rparr>,
                   \<lparr>ent_name = strncpy name_a 56, ent_offset = 143, ent_size = 1\<rparr>]"
    unfolding ents_def s by (simp add: dup_list_def upt_2 spec_offset_two MAX_PAK_NAME_LEN_def)
  have a: "arch = dup_pak"
    unfolding arch_def e
    by (simp add: dup_list_def dup_pak_def encode_entry_def sample_disk_def)
  note B = built [OF 1 3 4 pak_archive_init_not_Stale sizes_def ents_def arch_def]
  show ?thesis
    using B(1) B(2,3) [of zero_buf] by (simp add: a)
qed

lemma decode_name_b: "decode_name (strncpy name_b 56) = name_b"
  using decode_name_strncpy [of name_b]
  by (simp add: MAX_PAK_NAME_LEN_def name_b_def c_str_def)

lemma big_round:
  "fst (add_all big_disk big_list pak_builder_init) = Returns ()
   \<and> fst (write_archive big_disk True zero_buf
          (snd (add_all big_disk big_list pak_builder_init))) = True
   \<and> fst (snd (write_archive big_disk True zero_buf
          (snd (add_all big_disk big_list pak_builder_init)))) = Some big_pak
   \<and> fst (open_archive (Some big_pak) pak_archive_init) = Returns True
   \<and> fst (extract_file name_b True zero_buf
          (snd (open_archive (Some big_pak) pak_archive_init))) = Returns True
   \<and> fst (snd (extract_file name_b True zero_buf
          (snd (open_archive (Some big_pak) pak_archive_init)))) = Some [0x50]"
proof -
  define sizes where "sizes = map (\<lambda>x. length (the (big_disk (fst x)))) big_list"
  define ents where "ents = map (\<lambda>i. \<lparr>ent_name = strncpy (snd (big_list ! i)) MAX_PAK_NAME_LEN,
                  ent_offset = word_of_nat (spec_offset sizes i),
                  ent_size = word_of_nat (sizes ! i)\<rparr>) [0..<length big_list]"
  define arch where "arch = PACK @ le32 12 @ le32 (word_of_nat (64 * length big_list))
                  @ concat (map encode_entry ents)
                  @ concat (map (\<lambda>x. the (big_disk (fst x))) big_list)"
  define a where "a = \<lparr>m_file = Opened \<lparr>data = arch, pos = 12 + 64 * length big_list\<rparr>,
          m_fileSize = length arch, m_files = ents, m_errno = NoError,
          m_lookupMap = populate ents 0 Map.empty\<rparr>"
  have s: "sizes = [4294967156, 1]" by (simp add: sizes_def big_list_def big_disk_def)
  have 1: "big_list \<noteq> []" "length big_list < 2 ^ 26" by (simp_all add: big_list_def)
  have 3: "\<forall>x\<in>set big_list. length (snd x) \<le> MAX_PAK_NAME_LEN
        \<and> (\<exists>c. big_disk (fst x) = Some c \<and> length c \<le> UINT32_MAX)"
    by (simp add: big_list_def name_a_def name_b_def MAX_PAK_NAME_LEN_def big_disk_def UINT32_MAX_def)
  have 4: "12 + 64 * length big_list + sum_list sizes < 2 ^ 64"
    by (simp add: s big_list_def)
  have e: "ents = [\<lparr>ent_name = strncpy name_a 56, ent_offset = 140, ent_size = 4294967156\<rparr>,
                   \<lparr>ent_name = strncpy name_b 56, ent_offset = 0, ent_size = 1\<rparr>]"
    unfolding ents_def s by (simp add: big_list_def upt_2 spec_offset_two MAX_PAK_NAME_LEN_def)
  have ar: "arch = big_pak"
    unfolding arch_def e
    by (simp add: big_list_def big_pak_def encode_entry_def big_disk_def)
  note B = built [OF 1 3 4 pak_archive_init_not_Stale sizes_def ents_def arch_def]
  have o: "open_archive (Some big_pak) pak_archive_init = (Returns True, a)"
    using B(4) by (simp add: a_def ar)
  have ab: "name_a \<noteq> name_b" by (simp add: name_a_def name_b_def)
  have l1: "m_lookupMap a name_b = Some 1"
    using ab by (simp add: a_def e umap_insert_def decode_name_a decode_name_b)
  have l2: "1 < length (m_files a)" by (simp add: a_def e)
  have l3: "m_file a = Opened \<lparr>data = arch, pos = 12 + 64 * length big_list\<rparr>"
    by (simp add: a_def)
  have l4: "unat (ent_offset (m_files a ! 1)) + unat (ent_size (m_files a ! 1))
      \<le> length (data \<lparr>data = arch, pos = 12 + 64 * length big_list\<rparr>)"
    by (simp add: a_def e ar big_pak_def)
  have x: "fst (extract_file name_b True zero_buf a) = Returns True"
    "fst (snd (extract_file name_b True zero_buf a)) = Some [0x50]"
    unfolding extract_file_exact [OF l1 l2 l3 l4]
    by (simp_all add: a_def e ar) (simp add: big_pak_def PACK_def)
  show ?thesis
    using B(1) B(2,3) [of zero_buf] x by (simp add: o ar)
qed

text \<open>
  With 67108864 pending files, all empty, \<^verbatim>\<open>write\<close> succeeds; the header's table
  size is 0, not \<open>64 * 67108864\<close>, and the data offset of the first file is 12, inside
  the table, not \<open>12 + 64 * 67108864\<close>. With a file of \<open>2 ^ 32 - 140\<close> bytes
  followed by a file of one byte, the second entry of the table carries the offset 0,
  not \<open>140 + (2 ^ 32 - 140)\<close>.
\<close>

theorem write_layout_counterexample:
  "fst (write_archive empty_disk True zero_buf many_files) = True
   \<and> length (b_files many_files) = 67108864
   \<and> decode_header (take 12 (the (fst (snd (write_archive empty_disk True zero_buf many_files)))))
       = \<lparr>hdr_id = PACK, hdr_offset = 12, hdr_size = 0\<rparr>
   \<and> f_offset (b_files (snd (snd (write_archive empty_disk True zero_buf many_files))) ! 0) = 12
   \<and> spec_offset (map f_size (b_files many_files)) 0 = 4294967308
   \<and> fst (write_archive big_disk True zero_buf
          (snd (add_all big_disk big_list pak_builder_init))) = True
   \<and> fst (snd (write_archive big_disk True zero_buf
          (snd (add_all big_disk big_list pak_builder_init)))) = Some big_pak
   \<and> ent_offset (decode_entry (take 64 (drop (12 + 64 * 1) big_pak))) = 0
   \<and> spec_offset [4294967156, 1] 1 = 4294967296"
proof -
  define fs' where "fs' = assigned (b_files many_files) 12"
  define os1 where "os1 = \<lparr>data = PACK @ le32 12 @ le32 0
                  @ concat (map (\<lambda>f. encode_entry (entry_of f)) fs'),
               pos = 12 + 64 * length (b_files many_files)\<rparr>"
  have n: "length (b_files many_files) = 67108864"
    by (simp add: many_files_def)
  have 1: "(0 :: 32 word) = word_of_nat (size_t (length (b_files many_files) * 64))"
    by (simp add: n size_t_def)
  have 2: "fs' = assigned (b_files many_files) (size_t (12 + unat (0 :: 32 word)))"
    by (simp add: fs'_def size_t_def)
  note p = write_archive_pass1_gen [OF 1 2 os1_def, of empty_disk zero_buf]
  have "map f_size fs' = replicate 67108864 0"
    by (simp add: fs'_def assigned_fields many_files_def empty_file_def)
  then have "\<forall>f\<in>set fs'. f_size f = 0"
    by (metis (no_types, lifting) imageI in_set_replicate set_map)
  then have e: "\<forall>f\<in>set fs'. f_size f = 0 \<and> empty_disk (disk_path f) \<noteq> None"
    by (simp add: empty_disk_def)
  note wd = write_data_empty [OF e, of zero_buf os1]
  have out: "the (fst (snd (write_archive empty_disk True zero_buf many_files))) = data os1"
    by (simp add: p wd)
  have h: "decode_header (take 12 (data os1)) = \<lparr>hdr_id = PACK, hdr_offset = 12, hdr_size = 0\<rparr>"
    by (simp add: os1_def decode_header_def)
  have s: "sum_list (map f_size (b_files many_files)) = 0"
    by (simp add: many_files_def empty_file_def)
  have "f_offset (assigned (b_files many_files) 12 ! 0) = 12"
    by (subst assigned_offset) (simp_all add: n s)
  then have o: "f_offset (b_files (snd (snd (write_archive empty_disk True zero_buf many_files))) ! 0) = 12"
    by (simp add: p fs'_def)
  have sp: "spec_offset (map f_size (b_files many_files)) 0 = 4294967308"
    by (simp add: spec_offset_def n)
  have big: "ent_offset (decode_entry (take 64 (drop (12 + 64 * 1) big_pak))) = 0"
    by (simp add: big_pak_def decode_entry_def MAX_PAK_NAME_LEN_def)
  have bs: "spec_offset [4294967156, 1] 1 = 4294967296"
    by (simp add: spec_offset_def)
  have first: "fst (write_archive empty_disk True zero_buf many_files) = True
   \<and> length (b_files many_files) = 67108864
   \<and> decode_header (take 12 (the (fst (snd (write_archive empty_disk True zero_buf many_files)))))
       = \<lparr>hdr_id = PACK, hdr_offset = 12, hdr_size = 0\<rparr>
   \<and> f_offset (b_files (snd (snd (write_archive empty_disk True zero_buf many_files))) ! 0) = 12
   \<and> spec_offset (map f_size (b_files many_files)) 0 = 4294967308"
    using wd n h o sp by (simp add: out) (simp add: p)
  from first big bs big_round show ?thesis by blast
qed

lemma empty_round:
  "add_all sample_disk [] pak_builder_init = (Returns (), pak_builder_init)
   \<and> write_archive sample_disk True zero_buf pak_builder_init
       = (True, Some empty_pak, pak_builder_init)
   \<and> fst (open_archive (Some empty_pak) pak_archive_init) = Throws Out_of_range"
  using write_no_files [of sample_disk zero_buf]
  by (simp add: open_archive_Some [OF pak_archive_init_not_Stale] Let_def empty_pak_def
      decode_header_def)

lemma nul_round:
  "length nul_name \<le> 56
   \<and> add_all sample_disk nul_list pak_builder_init = (Returns (), one_file)
   \<and> write_archive sample_disk True zero_buf one_file
       = (True, Some one_pak, snd (snd (write_archive sample_disk True zero_buf one_file)))
   \<and> fst (open_archive (Some one_pak) pak_archive_init) = Returns True
   \<and> fst (extract_file nul_name True zero_buf
          (snd (open_archive (Some one_pak) pak_archive_init))) = Returns False"
proof -
  define sizes where "sizes = map (\<lambda>x. length (the (sample_disk (fst x)))) nul_list"
  define ents where "ents = map (\<lambda>i. \<lparr>ent_name = strncpy (snd (nul_list ! i)) MAX_PAK_NAME_LEN,
                  ent_offset = word_of_nat (spec_offset sizes i),
                  ent_size = word_of_nat (sizes ! i)\<rparr>) [0..<length nul_list]"
  define arch where "arch = PACK @ le32 12 @ le32 (word_of_nat (64 * length nul_list))
                  @ concat (map encode_entry ents)
                  @ concat (map (\<lambda>x. the (sample_disk (fst x))) nul_list)"
  define a where "a = \<lparr>m_file = Opened \<lparr>data = arch, pos = 12 + 64 * length nul_list\<rparr>,
          m_fileSize = length arch, m_files = ents, m_errno = NoError,
          m_lookupMap = populate ents 0 Map.empty\<rparr>"
  have s: "sizes = [3]" by (simp add: sizes_def nul_list_def sample_disk_def)
  have 1: "nul_list \<noteq> []" "length nul_list < 2 ^ 26" by (simp_all add: nul_list_def)
  have 3: "\<forall>x\<in>set nul_list. length (snd x) \<le> MAX_PAK_NAME_LEN
        \<and> (\<exists>c. sample_disk (fst x) = Some c \<and> length c \<le> UINT32_MAX)"
    by (simp add: nul_list_def nul_name_def MAX_PAK_NAME_LEN_def sample_disk_def UINT32_MAX_def)
  have 4: "12 + 64 * length nul_list + sum_list sizes < 2 ^ 64"
    by (simp add: s nul_list_def)
  have nn: "strncpy nul_name 56 = strncpy name_a 56"
    by (simp add: strncpy_def c_str_def nul_name_def name_a_def)
  have e: "ents = [\<lparr>ent_name = strncpy name_a 56, ent_offset = 76, ent_size = 3\<rparr>]"
    unfolding ents_def s
    by (simp add: nul_list_def spec_offset_def MAX_PAK_NAME_LEN_def nn)
  have ar: "arch = one_pak"
    unfolding arch_def e
    by (simp add: nul_list_def one_pak_def encode_entry_def sample_disk_def)
  note B = built [OF 1 3 4 pak_archive_init_not_Stale sizes_def ents_def arch_def]
  have p: "map (pending sample_disk) nul_list = b_files one_file"
    by (simp add: nul_list_def pending_def one_file_def sample_disk_def MAX_PAK_NAME_LEN_def nn)
  then have b: "\<lparr>b_files = map (pending sample_disk) nul_list\<rparr> = one_file"
    by (simp add: one_file_def)
  have o: "open_archive (Some one_pak) pak_archive_init = (Returns True, a)"
    using B(4) by (simp add: a_def ar)
  have "name_a \<noteq> nul_name" by (simp add: name_a_def nul_name_def)
  then have l: "m_lookupMap a nul_name = None"
    by (simp add: a_def e umap_insert_def decode_name_a)
  have x: "fst (extract_file nul_name True zero_buf a) = Returns False"
    by (simp add: extract_file_def l)
  have w: "write_archive sample_disk True zero_buf one_file
       = (True, Some one_pak, snd (snd (write_archive sample_disk True zero_buf one_file)))"
    using B(2,3) [of zero_buf] unfolding b ar by (metis prod.collapse)
  have ln: "length nul_name \<le> 56" by (simp add: nul_name_def)
  show ?thesis
    using B(1) w x ln unfolding b by (simp add: o)
qed

text \<open>
  Where the claim as stated fails. Two files under one name: both are stored, and the
  name extracts the bytes of the first, never those of the second. A file of
  \<open>2 ^ 32 - 140\<close> bytes followed by a file of one byte: the second entry's offset
  wraps to 0, and extracting it yields the first byte of the header. A name with a NUL
  byte inside: it is stored up to the NUL, and extracting the name as given finds
  nothing. No files at all: the archive is written, and \<^verbatim>\<open>open\<close> throws.
\<close>

theorem round_trip_counterexample:
  "(fst (add_all sample_disk dup_list pak_builder_init) = Returns ()
     \<and> fst (write_archive sample_disk True zero_buf
          (snd (add_all sample_disk dup_list pak_builder_init))) = True
     \<and> fst (snd (write_archive sample_disk True zero_buf
          (snd (add_all sample_disk dup_list pak_builder_init)))) = Some dup_pak
     \<and> open_archive (Some dup_pak) pak_archive_init = (Returns True, dup_state)
     \<and> fst (snd (extract_file name_a True zero_buf dup_state)) = Some [1, 2, 3]
     \<and> dup_list = [(''x'', name_a), (''y'', name_a)]
     \<and> sample_disk ''y'' = Some [9])
   \<and> (fst (add_all big_disk big_list pak_builder_init) = Returns ()
     \<and> fst (write_archive big_disk True zero_buf
          (snd (add_all big_disk big_list pak_builder_init))) = True
     \<and> fst (snd (write_archive big_disk True zero_buf
          (snd (add_all big_disk big_list pak_builder_init)))) = Some big_pak
     \<and> fst (open_archive (Some big_pak) pak_archive_init) = Returns True
     \<and> fst (snd (extract_file name_b True zero_buf
          (snd (open_archive (Some big_pak) pak_archive_init)))) = Some [0x50]
     \<and> big_list = [(''h'', name_a), (''y'', name_b)]
     \<and> big_disk ''y'' = Some [9]
     \<and> length (the (big_disk ''h'')) = 4294967156)
   \<and> (length nul_name \<le> 56
     \<and> add_all sample_disk nul_list pak_builder_init = (Returns (), one_file)
     \<and> fst (write_archive sample_disk True zero_buf one_file) = True
     \<and> fst (snd (write_archive sample_disk True zero_buf one_file)) = Some one_pak
     \<and> fst (open_archive (Some one_pak) pak_archive_init) = Returns True
     \<and> fst (extract_file nul_name True zero_buf
          (snd (open_archive (Some one_pak) pak_archive_init))) = Returns False)
   \<and> (add_all sample_disk [] pak_builder_init = (Returns (), pak_builder_init)
     \<and> write_archive sample_disk True zero_buf pak_builder_init
         = (True, Some empty_pak, pak_builder_init)
     \<and> fst (open_archive (Some empty_pak) pak_archive_init) = Throws Out_of_range)"
proof -
  have d: "dup_list = [(''x'', name_a), (''y'', name_a)]" "sample_disk ''y'' = Some [9]"
    by (simp_all add: dup_list_def sample_disk_def)
  have b: "big_list = [(''h'', name_a), (''y'', name_b)]" "big_disk ''y'' = Some [9]"
    "length (the (big_disk ''h'')) = 4294967156"
    by (simp_all add: big_list_def big_disk_def)
  have n: "fst (write_archive sample_disk True zero_buf one_file) = True"
    "fst (snd (write_archive sample_disk True zero_buf one_file)) = Some one_pak"
    using nul_round by (metis fst_conv snd_conv)+
  from dup_round open_dup_pak dup_extract d big_round b nul_round n empty_round
  show ?thesis by blast
qed


end
